theory Spec2Isabelle
  imports Complex_Main
begin

section \<open>Python arithmetic\<close>

text \<open>
  A Python \<open>float\<close> is an IEEE 754 double. A finite double is modelled by the real number
  it denotes, and every arithmetic operation returns the double nearest to its exact
  result, a tie going to the even significand, as the hardware does. Values are taken to
  stay within the range of doubles: infinities and NaN are not modelled.

  \<open>ilog2 n\<close> is the position of the leading bit of \<open>n\<close>; \<open>float_exponent x\<close> is the
  exponent \<open>e\<close> with \<open>2 ^ e \<le> \<bar>x\<bar> < 2 ^ (e + 1)\<close>; a double has 53 significant bits, and
  below \<open>2 ^ -1022\<close> the spacing stays at \<open>2 ^ -1074\<close>.
\<close>

fun ilog2 :: "nat \<Rightarrow> nat" where
  "ilog2 n = (if n < 2 then 0 else Suc (ilog2 (n div 2)))"

declare ilog2.simps [simp del]

definition float_exponent :: "real \<Rightarrow> int" where
  "float_exponent x =
     (let a = \<bar>x\<bar>
      in if 1 \<le> a then int (ilog2 (nat \<lfloor>a\<rfloor>))
         else - int (Suc (ilog2 (nat (\<lceil>1 / a\<rceil> - 1)))))"

definition pow2 :: "int \<Rightarrow> real" where
  "pow2 e = (if 0 \<le> e then 2 ^ nat e else 1 / 2 ^ nat (- e))"

definition round_half_even :: "real \<Rightarrow> int" where
  "round_half_even x =
     (let n = \<lfloor>x\<rfloor>; r = x - of_int n
      in if r < 1 / 2 then n else if 1 / 2 < r then n + 1 else if even n then n else n + 1)"

definition round_double :: "real \<Rightarrow> real" where
  "round_double x =
     (if x = 0 then 0
      else let q = pow2 (max (float_exponent x - 52) (- 1074))
           in of_int (round_half_even (x / q)) * q)"

text \<open>
  The operations on floats; \<open>py_float\<close> is the conversion an \<open>int\<close> operand undergoes
  when the other operand is a float, \<open>int_truediv\<close> is \<open>a / b\<close> on two \<open>int\<close>s, which Python
  rounds once, from the exact quotient. The divisor of \<open>f_div\<close> and \<open>int_truediv\<close> is not
  zero where they are used; \<open>tenth\<close> is the double the literal \<open>0.1\<close> denotes.
\<close>

definition py_float :: "int \<Rightarrow> real" where
  "py_float n = round_double (of_int n)"

definition f_add :: "real \<Rightarrow> real \<Rightarrow> real" where
  "f_add x y = round_double (x + y)"

definition f_sub :: "real \<Rightarrow> real \<Rightarrow> real" where
  "f_sub x y = round_double (x - y)"

definition f_mul :: "real \<Rightarrow> real \<Rightarrow> real" where
  "f_mul x y = round_double (x * y)"

definition f_div :: "real \<Rightarrow> real \<Rightarrow> real" where
  "f_div x y = round_double (x / y)"

definition int_truediv :: "int \<Rightarrow> int \<Rightarrow> real" where
  "int_truediv a b = round_double (of_int a / of_int b)"

definition tenth :: real where
  "tenth = round_double (1 / 10)"

text \<open>\<open>int(x)\<close> on a float truncates toward zero.\<close>

definition py_int :: "real \<Rightarrow> int" where
  "py_int x = (if 0 \<le> x then \<lfloor>x\<rfloor> else \<lceil>x\<rceil>)"

section \<open>Bandwidth throttle (models/protocols/base.py)\<close>

text \<open>
  The fields of \<open>BaseUploader\<close> that \<open>_throttle_bandwidth\<close> reads and writes.
  \<open>bandwidth_limit\<close> is the configured integer (the source comments it as KB/s, 0 =
  unlimited), \<open>last_byte_time\<close> is the clock reading taken in the constructor and never
  written again, \<open>bytes_transferred\<close> is the running byte count.
\<close>

record uploader =
  bandwidth_limit :: int
  last_byte_time :: real
  bytes_transferred :: int

text \<open>
  \<open>_throttle_bandwidth(self, bytes_sent)\<close>. The clock reading \<open>time.time()\<close> is an input;
  the result is the updated object and the argument of \<open>time.sleep\<close> when it is called
  (\<open>None\<close>: the method returns without sleeping). The divisor
  \<open>bandwidth_limit * 1024\<close> is positive on the only path that divides.
\<close>

definition throttle_bandwidth :: "uploader \<Rightarrow> real \<Rightarrow> int \<Rightarrow> uploader \<times> real option" where
  "throttle_bandwidth u current_time bytes_sent =
     (if bandwidth_limit u \<le> 0 then (u, None)
      else
        let u' = u\<lparr>bytes_transferred := bytes_transferred u + bytes_sent\<rparr>;
            expected_time = int_truediv (bytes_transferred u') (bandwidth_limit u' * 1024);
            actual_time = f_sub current_time (last_byte_time u')
        in if actual_time < expected_time then (u', Some (f_sub expected_time actual_time))
           else (u', None))"

text \<open>
  The delay as the specification words it: the configured cap \<open>C\<close> read as bytes per
  second, the expected time \<open>cumulative / C\<close>.
\<close>

definition spec_throttle_delay :: "uploader \<Rightarrow> real \<Rightarrow> int \<Rightarrow> real option" where
  "spec_throttle_delay u current_time bytes_sent =
     (if bandwidth_limit u = 0 then None
      else
        let expected_time = int_truediv (bytes_transferred u + bytes_sent) (bandwidth_limit u);
            actual_time = f_sub current_time (last_byte_time u)
        in if actual_time < expected_time then Some (f_sub expected_time actual_time) else None)"

section \<open>Transfer worker (models/worker.py): data\<close>

type_synonym path = string

datatype py_error = OSError | ZeroDivisionError | ValueError

text \<open>The adapter instance a call goes to: the one \<open>run\<close> creates, or the one
  \<open>upload_worker\<close> creates for the task with the given index.\<close>

datatype conn = SessionConn | WorkerConn nat

datatype level = Info | Warning | Error

text \<open>The log lines of worker.py, each with the values its format string interpolates
  (the float formatting of sizes and speeds is left out).\<close>

datatype log_msg =
    Starting int
  | CreateFailed
  | ConnectError string
  | ConnectedPreparing
  | TotalSizeError
  | FoundFiles nat nat
  | InvalidPattern string
  | AccessError path
  | ThreadConnectFailed string
  | Uploading path path
  | Retry nat int path
  | SizeWarning path
  | SizeError path
  | SpeedSizeWarning path
  | ProgressSizeWarning path
  | Uploaded path real
  | UploadFailed path string
  | ThreadError path

text \<open>
  What the worker does that is visible from outside, in order: the Qt signals it emits
  (\<open>log_signal\<close>, \<open>progress_signal\<close>, \<open>overall_progress_signal\<close>, \<open>speed_signal\<close>,
  \<open>file_completed_signal\<close>, \<open>all_completed_signal\<close>), its calls to an adapter
  (\<open>connect\<close>, \<open>upload_file\<close>, \<open>disconnect\<close>) and its calls to \<open>time.sleep\<close>.
\<close>

datatype event =
    Log level log_msg
  | Progress path real
  | Overall int int real
  | Speed real
  | FileCompleted path bool string real
  | AllCompleted bool string nat nat
  | Connect conn
  | UploadFile conn path path
  | Disconnect conn
  | Sleep real

text \<open>The two counters of \<open>EnhancedUploadWorker\<close> that the upload path reads and writes.
  File sizes are natural numbers, so both are.\<close>

record session =
  total_bytes :: nat
  uploaded_bytes :: nat

text \<open>
  Everything the code reads from outside is an observation supplied with the input: the
  flag \<open>should_cancel\<close> (set from another thread by \<open>cancel()\<close>) has the value given at
  each read, \<open>time.time()\<close> and \<open>os.path.getsize\<close> return what the observation says
  (\<open>None\<close> for a size: the call raises \<open>OSError\<close>), and one \<open>upload_file\<close> call is the
  list of \<open>progress_cb\<close> calls the adapter makes followed by the pair it returns.
\<close>

record callback_obs =
  cb_percent :: real
  cb_cancel :: bool
  cb_size :: "nat option"
  cb_now :: real

record attempt_obs =
  at_cancel :: bool
  at_callbacks :: "callback_obs list"
  at_result :: "bool \<times> string"

record task_obs =
  t_cancel :: bool
  t_pause :: "nat \<Rightarrow> bool \<times> bool"
  t_create :: bool
  t_connect :: "bool \<times> string"
  t_size0 :: "nat option"
  t_start :: real
  t_attempt :: "nat \<Rightarrow> attempt_obs"
  t_end :: real
  t_size_speed :: "nat option"
  t_size_done :: "nat option"
  t_collect_cancel :: bool

section \<open>The overall percent\<close>

text \<open>\<open>a / b\<close> raises \<open>ZeroDivisionError\<close> when \<open>b\<close> is zero: for a float \<open>a\<close> and an
  \<open>int\<close> \<open>b\<close>, which is converted first, and for two \<open>int\<close>s.\<close>

definition py_truediv :: "real \<Rightarrow> int \<Rightarrow> py_error + real" where
  "py_truediv a b = (if b = 0 then Inl ZeroDivisionError else Inr (f_div a (py_float b)))"

definition py_truediv_int :: "int \<Rightarrow> int \<Rightarrow> py_error + real" where
  "py_truediv_int a b = (if b = 0 then Inl ZeroDivisionError else Inr (int_truediv a b))"

text \<open>The expression
  \<open>(overall_bytes_uploaded / self.total_bytes * 100) if self.total_bytes > 0 else 0\<close>
  of both progress callbacks, where the numerator is a float.\<close>

definition overall_percent_expr :: "real \<Rightarrow> nat \<Rightarrow> py_error + real" where
  "overall_percent_expr overall total_b =
     (if total_b > 0 then
        (case py_truediv overall (int total_b) of Inl e \<Rightarrow> Inl e | Inr q \<Rightarrow> Inr (f_mul q 100))
      else Inr 0)"

text \<open>The expression
  \<open>(self.uploaded_bytes / self.total_bytes * 100) if self.total_bytes > 0 else 0\<close>
  of both terminal updates, where the numerator is an \<open>int\<close>.\<close>

definition overall_percent_done :: "nat \<Rightarrow> nat \<Rightarrow> py_error + real" where
  "overall_percent_done uploaded total_b =
     (if total_b > 0 then
        (case py_truediv_int (int uploaded) (int total_b) of Inl e \<Rightarrow> Inl e | Inr q \<Rightarrow> Inr (f_mul q 100))
      else Inr 0)"

section \<open>Progress callbacks\<close>

text \<open>
  The closure \<open>progress_callback\<close> of \<open>upload_single_file\<close> (worker.py 287-307). The
  result is the signals emitted and the exception that leaves the callback, if any:
  \<open>OSError\<close> is caught inside, a \<open>ZeroDivisionError\<close> would not be.
\<close>

definition progress_callback :: "session \<Rightarrow> path \<Rightarrow> real \<Rightarrow> callback_obs \<Rightarrow> event list \<times> py_error option" where
  "progress_callback st local_path file_start_time c =
     (if cb_cancel c then ([], None)
      else
        (case cb_size c of
           None \<Rightarrow> ([Progress local_path (cb_percent c), Log Warning (SizeWarning local_path)], None)
         | Some file_size \<Rightarrow>
             let bytes_sent_this_file = f_div (f_mul (py_float (int file_size)) (cb_percent c)) 100;
                 overall_bytes_uploaded = f_add (py_float (int (uploaded_bytes st))) bytes_sent_this_file
             in (case overall_percent_expr overall_bytes_uploaded (total_bytes st) of
                   Inl e \<Rightarrow> ([Progress local_path (cb_percent c)], Some e)
                 | Inr overall_percent \<Rightarrow>
                     let elapsed = f_sub (cb_now c) file_start_time
                     in ([Progress local_path (cb_percent c),
                          Overall (py_int overall_bytes_uploaded) (int (total_bytes st)) overall_percent]
                         @ (if elapsed > 0 then [Speed (f_div (f_div bytes_sent_this_file 1024) elapsed)] else []),
                         None))))"

text \<open>
  The closure \<open>progress_callback\<close> of \<open>upload_single_file_threaded\<close> (worker.py 366-382):
  the size is the one read before the retry loop, and the body runs under \<open>upload_lock\<close>,
  so \<open>st\<close> is the shared state at the moment the lock is held.
\<close>

definition progress_callback_threaded :: "session \<Rightarrow> path \<Rightarrow> nat \<Rightarrow> real \<Rightarrow> callback_obs \<Rightarrow> event list \<times> py_error option" where
  "progress_callback_threaded st local_path file_size file_start_time c =
     (if cb_cancel c then ([], None)
      else
        let bytes_sent_this_file = f_div (f_mul (py_float (int file_size)) (cb_percent c)) 100;
            overall_bytes_uploaded = f_add (py_float (int (uploaded_bytes st))) bytes_sent_this_file
        in (case overall_percent_expr overall_bytes_uploaded (total_bytes st) of
              Inl e \<Rightarrow> ([Progress local_path (cb_percent c)], Some e)
            | Inr overall_percent \<Rightarrow>
                let elapsed = f_sub (cb_now c) file_start_time
                in ([Progress local_path (cb_percent c),
                     Overall (py_int overall_bytes_uploaded) (int (total_bytes st)) overall_percent]
                    @ (if elapsed > 0 then [Speed (f_div (f_div bytes_sent_this_file 1024) elapsed)] else []),
                    None)))"

text \<open>
  The \<open>progress_cb\<close> calls of one \<open>upload_file\<close> call, in order. An exception that leaves a
  callback ends the sequence: it surfaces inside the adapter.
\<close>

fun run_callbacks :: "(callback_obs \<Rightarrow> event list \<times> py_error option) \<Rightarrow> callback_obs list \<Rightarrow> event list \<times> py_error option" where
  "run_callbacks cb [] = ([], None)"
| "run_callbacks cb (c # cs) =
     (case cb c of
        (evs, Some e) \<Rightarrow> (evs, Some e)
      | (evs, None) \<Rightarrow> (case run_callbacks cb cs of (evs', r) \<Rightarrow> (evs @ evs', r)))"

text \<open>The speed sample of one callback as the specification words it:
  \<open>bytes_this_file / elapsed_this_file\<close>, with \<open>bytes_this_file = size * percent / 100\<close>.\<close>

definition spec_speed_sample :: "nat \<Rightarrow> real \<Rightarrow> real \<Rightarrow> real" where
  "spec_speed_sample file_size percent elapsed =
     f_div (f_div (f_mul (py_float (int file_size)) percent) 100) elapsed"

text \<open>The percent the FTP adapter passes to \<open>progress_cb\<close> after \<open>uploaded\<close> bytes of a
  file of \<open>file_size\<close> bytes: \<open>uploaded / file_size * 100\<close> (ftp.py 89), for a file that
  is not empty.\<close>

definition ftp_percent :: "nat \<Rightarrow> nat \<Rightarrow> real" where
  "ftp_percent uploaded file_size = f_mul (int_truediv (int uploaded) (int file_size)) 100"

section \<open>Uploading one file\<close>

text \<open>
  One \<open>uploader.upload_file(local_path, remote_path, progress_callback)\<close> call as the
  worker sees it: the callbacks run, then the adapter returns its pair. Every adapter of
  the repository wraps its transfer in \<open>try ... except Exception\<close> and returns
  \<open>(False, message)\<close>, so an exception leaving a callback becomes a failed attempt.
\<close>

definition attempt_upload :: "(callback_obs \<Rightarrow> event list \<times> py_error option) \<Rightarrow> attempt_obs \<Rightarrow> event list \<times> (bool \<times> string)" where
  "attempt_upload cb a =
     (case run_callbacks cb (at_callbacks a) of
        (evs, None) \<Rightarrow> (evs, at_result a)
      | (evs, Some e) \<Rightarrow> (evs, (False, ''Upload failed'')))"

text \<open>
  The loop \<open>for attempt in range(self.max_retries + 1)\<close>, the same text in
  \<open>upload_single_file\<close> (280-315) and \<open>upload_single_file_threaded\<close> (359-390) but for
  the callback. The list is the part of the range still to run; the pair is the current
  \<open>(success, error_message)\<close>.
\<close>

fun retry_loop :: "conn \<Rightarrow> path \<Rightarrow> path \<Rightarrow> int \<Rightarrow> (callback_obs \<Rightarrow> event list \<times> py_error option)
    \<Rightarrow> (nat \<Rightarrow> attempt_obs) \<Rightarrow> nat list \<Rightarrow> bool \<times> string \<Rightarrow> event list \<times> (bool \<times> string)" where
  "retry_loop k local_path remote_path max_retries cb obs [] r = ([], r)"
| "retry_loop k local_path remote_path max_retries cb obs (attempt # rest) r =
     (if at_cancel (obs attempt) then ([], r)
      else
        (case attempt_upload cb (obs attempt) of
           (evs, r') \<Rightarrow>
             let called = (if attempt > 0 then [Log Warning (Retry attempt max_retries local_path)] else [])
                          @ UploadFile k local_path remote_path # evs
             in if fst r' then (called, r')
                else
                  (case retry_loop k local_path remote_path max_retries cb obs rest r' of
                     (evs', r'') \<Rightarrow>
                       (called @ (if int attempt < max_retries then [Sleep 2] else []) @ evs', r''))))"

text \<open>The tail both functions share: \<open>file_completed_signal\<close> and the closing log
  line. \<open>error_message or "Success"\<close> is \<open>"Success"\<close> for the empty string.\<close>

definition completion_events :: "path \<Rightarrow> bool \<Rightarrow> string \<Rightarrow> real \<Rightarrow> event list" where
  "completion_events local_path success error_message speed =
     [FileCompleted local_path success (if error_message = [] then ''Success'' else error_message) speed,
      if success then Log Info (Uploaded local_path speed)
      else Log Error (UploadFailed local_path error_message)]"

text \<open>\<open>upload_single_file\<close> (worker.py 272-343). The result is the events, the
  counters and what the call returns: \<open>Inr success\<close>, or \<open>Inl\<close> an exception that no
  handler of the function catches.\<close>

definition upload_single_file :: "int \<Rightarrow> session \<Rightarrow> conn \<Rightarrow> path \<Rightarrow> path \<Rightarrow> task_obs
    \<Rightarrow> event list \<times> session \<times> (py_error + bool)" where
  "upload_single_file max_retries st k local_path remote_path ob =
     (let file_start_time = t_start ob
      in (case retry_loop k local_path remote_path max_retries
                 (progress_callback st local_path file_start_time) (t_attempt ob)
                 [0..<nat (max_retries + 1)] (False, []) of
            (loop_evs, (success, error_message)) \<Rightarrow>
              let elapsed = f_sub (t_end ob) file_start_time;
                  (speed_evs, speed) =
                    (case t_size_speed ob of
                       Some n \<Rightarrow> ([], f_div (int_truediv (int n) 1024) (max elapsed tenth))
                     | None \<Rightarrow> ([Log Warning (SpeedSizeWarning local_path)], 0));
                  before = Log Info (Uploading local_path remote_path) # loop_evs @ speed_evs;
                  after = completion_events local_path success error_message speed
              in if success then
                   (case t_size_done ob of
                      None \<Rightarrow> (before @ Log Warning (ProgressSizeWarning local_path) # after, st, Inr success)
                    | Some file_size \<Rightarrow>
                        let st' = st\<lparr>uploaded_bytes := uploaded_bytes st + file_size\<rparr>
                        in (case overall_percent_done (uploaded_bytes st') (total_bytes st') of
                              Inl e \<Rightarrow> (before, st', Inl e)
                            | Inr overall_percent \<Rightarrow>
                                (before @ Overall (int (uploaded_bytes st')) (int (total_bytes st')) overall_percent # after,
                                 st', Inr success)))
                 else (before @ after, st, Inr success)))"

text \<open>\<open>upload_single_file_threaded\<close> (worker.py 345-415): the size is read once, before
  the loop, and a failure to read it returns \<open>False\<close> at once.\<close>

definition upload_single_file_threaded :: "int \<Rightarrow> session \<Rightarrow> conn \<Rightarrow> path \<Rightarrow> path \<Rightarrow> task_obs
    \<Rightarrow> event list \<times> session \<times> (py_error + bool)" where
  "upload_single_file_threaded max_retries st k local_path remote_path ob =
     (let file_start_time = t_start ob
      in (case t_size0 ob of
            None \<Rightarrow>
              ([Log Info (Uploading local_path remote_path), Log Error (SizeError local_path)], st, Inr False)
          | Some file_size \<Rightarrow>
              (case retry_loop k local_path remote_path max_retries
                      (progress_callback_threaded st local_path file_size file_start_time) (t_attempt ob)
                      [0..<nat (max_retries + 1)] (False, []) of
                 (loop_evs, (success, error_message)) \<Rightarrow>
                   let elapsed = f_sub (t_end ob) file_start_time;
                       speed = f_div (int_truediv (int file_size) 1024) (max elapsed tenth);
                       before = Log Info (Uploading local_path remote_path) # loop_evs;
                       after = completion_events local_path success error_message speed
                   in if success then
                        (let st' = st\<lparr>uploaded_bytes := uploaded_bytes st + file_size\<rparr>
                         in (case overall_percent_done (uploaded_bytes st') (total_bytes st') of
                               Inl e \<Rightarrow> (before, st', Inl e)
                             | Inr overall_percent \<Rightarrow>
                                 (before @ Overall (int (uploaded_bytes st')) (int (total_bytes st')) overall_percent # after,
                                  st', Inr success)))
                      else (before @ after, st, Inr success))))"

section \<open>Dispatch\<close>

text \<open>Decimal rendering of a count, as an f-string does it.\<close>

fun str_nat :: "nat \<Rightarrow> string" where
  "str_nat n = (if n < 10 then [''0123456789'' ! n] else str_nat (n div 10) @ [''0123456789'' ! (n mod 10)])"

declare str_nat.simps [simp del]

text \<open>\<open>emit_completion_signal\<close> (worker.py 427-434); the first argument is the value of
  \<open>self.should_cancel\<close> when it is read.\<close>

definition emit_completion_signal :: "bool \<Rightarrow> nat \<Rightarrow> nat \<Rightarrow> nat \<Rightarrow> event" where
  "emit_completion_signal should_cancel successful failed n_total =
     (if should_cancel then AllCompleted False ''Upload canceled'' successful failed
      else if failed = 0 then
        AllCompleted True (''All '' @ str_nat n_total @ '' files uploaded successfully'') successful failed
      else AllCompleted False (''Upload completed with '' @ str_nat failed @ '' errors'') successful failed)"

text \<open>
  The wait \<open>while self.is_paused and not self.should_cancel: time.sleep(0.1)\<close>. Each poll
  observes the two flags; the result is the number of sleeps, and \<open>None\<close> when the wait
  never ends.
\<close>

partial_function (option) pause_wait :: "(nat \<Rightarrow> bool \<times> bool) \<Rightarrow> nat \<Rightarrow> nat option" where
  "pause_wait polls k =
     (if fst (polls k) \<and> \<not> snd (polls k) then pause_wait polls (Suc k) else Some k)"

text \<open>The tally \<open>successful_uploads += 1\<close> / \<open>failed_uploads += 1\<close>.\<close>

definition tally :: "bool \<Rightarrow> nat \<times> nat \<Rightarrow> nat \<times> nat" where
  "tally success c = (if success then (fst c + 1, snd c) else (fst c, snd c + 1))"

text \<open>
  The body of the loop of \<open>upload_files_sequential\<close> (worker.py 257-268) for one task, after
  the cancel check: the pause wait, the upload, the tally. \<open>None\<close>: the wait never ends.
\<close>

definition sequential_task :: "int \<Rightarrow> session \<Rightarrow> path \<Rightarrow> path \<Rightarrow> task_obs \<Rightarrow> nat \<times> nat
    \<Rightarrow> (event list \<times> session \<times> (nat \<times> nat) \<times> py_error option) option" where
  "sequential_task max_retries st local_path remote_path ob c =
     (case pause_wait (t_pause ob) 0 of
        None \<Rightarrow> None
      | Some n \<Rightarrow>
          (case upload_single_file max_retries st SessionConn local_path remote_path ob of
             (evs, st', Inl e) \<Rightarrow> Some (replicate n (Sleep tenth) @ evs, st', c, Some e)
           | (evs, st', Inr success) \<Rightarrow> Some (replicate n (Sleep tenth) @ evs, st', tally success c, None)))"

fun sequential_loop :: "int \<Rightarrow> session \<Rightarrow> (nat \<Rightarrow> task_obs) \<Rightarrow> nat \<Rightarrow> (path \<times> path) list \<Rightarrow> nat \<times> nat
    \<Rightarrow> (event list \<times> session \<times> (nat \<times> nat) \<times> py_error option) option" where
  "sequential_loop max_retries st obs i [] c = Some ([], st, c, None)"
| "sequential_loop max_retries st obs i ((local_path, remote_path) # ts) c =
     (if t_cancel (obs i) then Some ([], st, c, None)
      else
        (case sequential_task max_retries st local_path remote_path (obs i) c of
           None \<Rightarrow> None
         | Some (evs, st', c', Some e) \<Rightarrow> Some (evs, st', c', Some e)
         | Some (evs, st', c', None) \<Rightarrow>
             (case sequential_loop max_retries st' obs (Suc i) ts c' of
                None \<Rightarrow> None
              | Some (evs', r) \<Rightarrow> Some (evs @ evs', r))))"

text \<open>
  \<open>upload_files_sequential\<close>: the loop, then \<open>emit_completion_signal\<close>, which reads
  \<open>should_cancel\<close> once more. An exception leaving the loop skips the completion signal.
\<close>

definition upload_files_sequential :: "int \<Rightarrow> session \<Rightarrow> (nat \<Rightarrow> task_obs) \<Rightarrow> bool \<Rightarrow> (path \<times> path) list
    \<Rightarrow> (event list \<times> session \<times> py_error option) option" where
  "upload_files_sequential max_retries st obs cancel_at_end fs =
     (case sequential_loop max_retries st obs 0 fs (0, 0) of
        None \<Rightarrow> None
      | Some (evs, st', c, Some e) \<Rightarrow> Some (evs, st', Some e)
      | Some (evs, st', c, None) \<Rightarrow>
          Some (evs @ [emit_completion_signal cancel_at_end (fst c) (snd c) (length fs)], st', None))"

text \<open>
  \<open>upload_worker\<close>, the closure each pool thread runs for one task (worker.py 190-214),
  with the index of the task, the shared state and the two shared tallies. The two early
  returns come before the \<open>try\<close> and before the tally.
\<close>

definition upload_worker :: "int \<Rightarrow> session \<Rightarrow> nat \<Rightarrow> path \<Rightarrow> path \<Rightarrow> task_obs \<Rightarrow> nat \<times> nat
    \<Rightarrow> event list \<times> session \<times> (nat \<times> nat) \<times> (py_error + bool)" where
  "upload_worker max_retries st i local_path remote_path ob c =
     (if \<not> t_create ob then ([Log Error CreateFailed], st, c, Inr False)
      else
        (case t_connect ob of
           (False, message) \<Rightarrow>
             ([Connect (WorkerConn i), Log Error (ThreadConnectFailed message)], st, c, Inr False)
         | (True, message) \<Rightarrow>
             (case upload_single_file_threaded max_retries st (WorkerConn i) local_path remote_path ob of
                (evs, st', Inl e) \<Rightarrow>
                  (Connect (WorkerConn i) # evs @ [Disconnect (WorkerConn i)], st', c, Inl e)
              | (evs, st', Inr success) \<Rightarrow>
                  (Connect (WorkerConn i) # evs @ [Disconnect (WorkerConn i)], st', tally success c, Inr success))))"

text \<open>
  \<open>upload_files_threaded\<close> (worker.py 181-250) on the schedules in which the pool runs the
  workers one after another in submission order and the collecting loop sees each future
  right after it completes: the loop reads \<open>should_cancel\<close> (breaking, with the futures
  not yet started cancelled), and counts a worker that raised as failed.
\<close>

fun threaded_loop :: "int \<Rightarrow> session \<Rightarrow> (nat \<Rightarrow> task_obs) \<Rightarrow> nat \<Rightarrow> (path \<times> path) list \<Rightarrow> nat \<times> nat
    \<Rightarrow> event list \<times> session \<times> (nat \<times> nat)" where
  "threaded_loop max_retries st obs i [] c = ([], st, c)"
| "threaded_loop max_retries st obs i ((local_path, remote_path) # ts) c =
     (case upload_worker max_retries st i local_path remote_path (obs i) c of
        (evs, st', c', res) \<Rightarrow>
          if t_collect_cancel (obs i) then (evs, st', c')
          else
            (case res of
               Inl e \<Rightarrow>
                 (case threaded_loop max_retries st' obs (Suc i) ts (fst c', snd c' + 1) of
                    (evs', r) \<Rightarrow> (evs @ Log Error (ThreadError local_path) # evs', r))
             | Inr success \<Rightarrow>
                 (case threaded_loop max_retries st' obs (Suc i) ts c' of
                    (evs', r) \<Rightarrow> (evs @ evs', r))))"

definition upload_files_threaded :: "int \<Rightarrow> session \<Rightarrow> (nat \<Rightarrow> task_obs) \<Rightarrow> bool \<Rightarrow> (path \<times> path) list
    \<Rightarrow> event list \<times> session" where
  "upload_files_threaded max_retries st obs cancel_at_end fs =
     (case threaded_loop max_retries st obs 0 fs (0, 0) of
        (evs, st', c) \<Rightarrow>
          (evs @ [emit_completion_signal cancel_at_end (fst c) (snd c) (length fs)], st'))"

section \<open>Paths (Python's posixpath, as collect_files uses it)\<close>

text \<open>
  The functions of \<open>os.path\<close> that \<open>collect_files\<close> calls, after CPython's posixpath.py:
  strings are split at \<open>/\<close> as \<open>str.split\<close> does (so \<open>"a//b"\<close> has an empty component);
  \<open>join_sep\<close> is \<open>"/".join\<close>.
\<close>

fun split_sep :: "string \<Rightarrow> string list" where
  "split_sep [] = [[]]"
| "split_sep (c # cs) =
     (if c = CHR ''/'' then [] # split_sep cs
      else (case split_sep cs of [] \<Rightarrow> [[c]] | x # xs \<Rightarrow> (c # x) # xs))"

definition join_sep :: "string list \<Rightarrow> string" where
  "join_sep xs = concat (case xs of [] \<Rightarrow> [] | y # ys \<Rightarrow> y # map (\<lambda>x. CHR ''/'' # x) ys)"

definition isabs :: "path \<Rightarrow> bool" where
  "isabs p = (take 1 p = ''/'')"

text \<open>\<open>os.path.join(a, b)\<close>: an absolute \<open>b\<close> replaces \<open>a\<close>; no separator is added after
  an empty \<open>a\<close> or one that ends with a separator.\<close>

definition join :: "path \<Rightarrow> path \<Rightarrow> path" where
  "join a b =
     (if take 1 b = ''/'' then b
      else if a = [] \<or> last a = CHR ''/'' then a @ b
      else a @ ''/'' @ b)"

text \<open>\<open>os.path.basename(p)\<close> is \<open>p[p.rfind('/') + 1:]\<close>, the last component of the split;
  \<open>os.path.dirname(p)\<close> is the rest, with trailing separators removed unless it consists
  of separators only.\<close>

definition basename :: "path \<Rightarrow> string" where
  "basename p = last (split_sep p)"

definition rstrip_sep :: "string \<Rightarrow> string" where
  "rstrip_sep s = rev (dropWhile (\<lambda>c. c = CHR ''/'') (rev s))"

definition dirname :: "path \<Rightarrow> path" where
  "dirname p =
     (let head = take (length p - length (basename p)) p
      in if head \<noteq> [] \<and> \<not> list_all (\<lambda>c. c = CHR ''/'') head then rstrip_sep head else head)"

text \<open>The loop of \<open>normpath\<close> over the components, with the list built so far.\<close>

fun norm_comps :: "bool \<Rightarrow> string list \<Rightarrow> string list \<Rightarrow> string list" where
  "norm_comps initial_slashes new_comps [] = new_comps"
| "norm_comps initial_slashes new_comps (part # comps) =
     (if part = [] \<or> part = ''.'' then norm_comps initial_slashes new_comps comps
      else if part \<noteq> ''..'' \<or> (\<not> initial_slashes \<and> new_comps = [])
              \<or> (new_comps \<noteq> [] \<and> last new_comps = ''..'')
      then norm_comps initial_slashes (new_comps @ [part]) comps
      else if new_comps \<noteq> [] then norm_comps initial_slashes (butlast new_comps) comps
      else norm_comps initial_slashes new_comps comps)"

definition normpath :: "path \<Rightarrow> path" where
  "normpath p =
     (if p = [] then ''.''
      else
        let initial_slashes =
              (if take 1 p = ''/'' then (if take 2 p = ''//'' \<and> take 3 p \<noteq> ''///'' then 2 else 1) else (0::nat));
            q = replicate initial_slashes (CHR ''/'') @ join_sep (norm_comps (initial_slashes > 0) [] (split_sep p))
        in if q = [] then ''.'' else q)"

text \<open>\<open>os.path.abspath\<close> calls \<open>os.getcwd()\<close> for a relative path; the working directory
  is \<open>None\<close> when that call raises \<open>OSError\<close> (the directory has been removed).\<close>

definition abspath :: "path option \<Rightarrow> path \<Rightarrow> py_error + path" where
  "abspath cwd p =
     (if isabs p then Inr (normpath p)
      else (case cwd of None \<Rightarrow> Inl OSError | Some c \<Rightarrow> Inr (normpath (join c p))))"

fun commonprefix :: "'a list \<Rightarrow> 'a list \<Rightarrow> 'a list" where
  "commonprefix (x # xs) (y # ys) = (if x = y then x # commonprefix xs ys else [])"
| "commonprefix xs ys = []"

definition relpath :: "path option \<Rightarrow> path \<Rightarrow> path \<Rightarrow> py_error + path" where
  "relpath cwd p start =
     (if p = [] then Inl ValueError
      else
        (case abspath cwd start of
           Inl e \<Rightarrow> Inl e
         | Inr s \<Rightarrow>
             (case abspath cwd p of
                Inl e \<Rightarrow> Inl e
              | Inr q \<Rightarrow>
                  let start_list = filter (\<lambda>x. x \<noteq> []) (split_sep s);
                      path_list = filter (\<lambda>x. x \<noteq> []) (split_sep q);
                      i = length (commonprefix start_list path_list);
                      rel_list = replicate (length start_list - i) ''..'' @ drop i path_list
                  in if rel_list = [] then Inr ''.'' else Inr (join_sep rel_list))))"

section \<open>File collector\<close>

text \<open>
  What \<open>collect_files\<close> finds on disk. A directory lists the names of its entries that are
  not directories and its subdirectories, in the order \<open>os.walk\<close> yields them;
  \<open>Unreadable\<close> is a directory that \<open>os.walk\<close> does not descend into (its listing fails,
  which \<open>os.walk\<close> ignores). A selected path is a regular file (\<open>os.path.isfile\<close>), a
  directory (\<open>os.path.isdir\<close>), or neither: both tests return \<open>False\<close> for a path that does
  not exist or cannot be examined, they do not raise.
\<close>

datatype tree = Tree "string list" "(string \<times> tree) list" | Unreadable

datatype entry = Missing | IsFile | IsDir tree

text \<open>The world outside: the working directory, the selected paths, and the regular
  expression engine (\<open>re.compile\<close> succeeds, \<open>pattern.search(name)\<close> finds a match).\<close>

record world =
  w_cwd :: "path option"
  w_entry :: "path \<Rightarrow> entry"
  re_valid :: "string \<Rightarrow> bool"
  re_search :: "string \<Rightarrow> string \<Rightarrow> bool"

text \<open>The constructor arguments of \<open>EnhancedUploadWorker\<close> that the worker reads.\<close>

record worker =
  files :: "path list"
  remote_dir :: path
  max_retries :: int
  ignore_patterns :: "string list"
  max_threads :: int
  include_hidden_files :: bool
  upload_directory_contents_only :: bool

text \<open>\<open>str.strip()\<close>, on the ASCII whitespace characters.\<close>

definition is_space :: "char \<Rightarrow> bool" where
  "is_space c = (c \<in> set [CHR 0x09, CHR 0x0A, CHR 0x0B, CHR 0x0C, CHR 0x0D, CHR 0x1C, CHR 0x1D, CHR 0x1E, CHR 0x1F, CHR 0x20])"

definition strip :: "string \<Rightarrow> string" where
  "strip s = rev (dropWhile is_space (rev (dropWhile is_space s)))"

text \<open>The first loop of \<open>collect_files\<close> (worker.py 140-146): blank patterns are skipped,
  a pattern that does not compile is reported and skipped.\<close>

fun compile_patterns :: "world \<Rightarrow> string list \<Rightarrow> event list \<times> string list" where
  "compile_patterns w [] = ([], [])"
| "compile_patterns w (pattern # ps) =
     (case compile_patterns w ps of
        (evs, compiled) \<Rightarrow>
          if strip pattern \<noteq> [] then
            (if re_valid w (strip pattern) then (evs, strip pattern # compiled)
             else (Log Warning (InvalidPattern pattern) # evs, compiled))
          else (evs, compiled))"

text \<open>\<open>_should_ignore\<close> (worker.py 417-425).\<close>

definition should_ignore :: "worker \<Rightarrow> world \<Rightarrow> string \<Rightarrow> string list \<Rightarrow> bool" where
  "should_ignore self w filename patterns =
     (if \<not> include_hidden_files self \<and> take 1 filename = ''.'' then True
      else list_ex (\<lambda>pattern. re_search w pattern filename) patterns)"

text \<open>
  \<open>os.walk(file_path)\<close> with the pruning \<open>dirs[:] = [...]\<close> and the file filter of worker.py
  157-165: the local paths \<open>os.path.join(root, file)\<close> of the files that pass, in the order
  the loop reaches them (a directory's files, then its subdirectories in turn).
\<close>

fun walk :: "(string \<Rightarrow> bool) \<Rightarrow> path \<Rightarrow> tree \<Rightarrow> path list" where
  "walk ign dirpath Unreadable = []"
| "walk ign dirpath (Tree fs ds) =
     map (join dirpath) (filter (\<lambda>f. \<not> ign f) fs)
     @ concat (map (\<lambda>(d, t). walk ign (join dirpath d) t) (filter (\<lambda>(d, t). \<not> ign d) ds))"

text \<open>\<open>.replace('\\', '/')\<close>.\<close>

definition replace_backslash :: "string \<Rightarrow> string" where
  "replace_backslash s = map (\<lambda>c. if c = CHR 0x5C then CHR ''/'' else c) s"

text \<open>The rest of the loop body (worker.py 167-175) over the walked files: an exception
  of \<open>relpath\<close> ends it, and the tasks appended before it stay in the list.\<close>

fun collect_walked :: "worker \<Rightarrow> world \<Rightarrow> path \<Rightarrow> path list \<Rightarrow> (path \<times> path) list \<times> py_error option" where
  "collect_walked self w file_path [] = ([], None)"
| "collect_walked self w file_path (local_file_path # rest) =
     (case relpath (w_cwd w) local_file_path
             (if upload_directory_contents_only self then file_path else dirname file_path) of
        Inl e \<Rightarrow> ([], Some e)
      | Inr rel_path \<Rightarrow>
          (case collect_walked self w file_path rest of
             (ts, x) \<Rightarrow> ((local_file_path, replace_backslash (join (remote_dir self) rel_path)) # ts, x)))"

text \<open>The body of \<open>for file_path in self.files\<close> inside the \<open>try\<close> (worker.py 151-175).\<close>

definition collect_root :: "worker \<Rightarrow> world \<Rightarrow> string list \<Rightarrow> path \<Rightarrow> (path \<times> path) list \<times> py_error option" where
  "collect_root self w patterns file_path =
     (case w_entry w file_path of
        IsFile \<Rightarrow>
          (if \<not> should_ignore self w (basename file_path) patterns then ([(file_path, basename file_path)], None)
           else ([], None))
      | IsDir t \<Rightarrow>
          (if should_ignore self w (basename file_path) patterns then ([], None)
           else collect_walked self w file_path (walk (\<lambda>n. should_ignore self w n patterns) file_path t))
      | Missing \<Rightarrow> ([], None))"

text \<open>The loop over the selection with its handler \<open>except OSError\<close> (worker.py 149-177):
  an \<open>OSError\<close> is logged and the loop goes on, any other exception leaves the function.\<close>

fun collect_roots :: "worker \<Rightarrow> world \<Rightarrow> string list \<Rightarrow> path list \<Rightarrow> event list \<times> (path \<times> path) list \<times> py_error option" where
  "collect_roots self w patterns [] = ([], [], None)"
| "collect_roots self w patterns (file_path # rest) =
     (case collect_root self w patterns file_path of
        (ts, Some OSError) \<Rightarrow>
          (case collect_roots self w patterns rest of
             (evs, ts', x) \<Rightarrow> (Log Error (AccessError file_path) # evs, ts @ ts', x))
      | (ts, Some e) \<Rightarrow> ([], ts, Some e)
      | (ts, None) \<Rightarrow>
          (case collect_roots self w patterns rest of (evs, ts', x) \<Rightarrow> (evs, ts @ ts', x)))"

definition collect_files :: "worker \<Rightarrow> world \<Rightarrow> event list \<times> (path \<times> path) list \<times> py_error option" where
  "collect_files self w =
     (case compile_patterns w (ignore_patterns self) of
        (evs, compiled_patterns) \<Rightarrow>
          (case collect_roots self w compiled_patterns (files self) of
             (evs', r) \<Rightarrow> (evs @ evs', r)))"

section \<open>The session: run\<close>

text \<open>What \<open>run\<close> observes itself: whether \<open>create_uploader\<close> returns an adapter, what
  \<open>connect\<close> returns, \<open>os.path.exists\<close> and \<open>os.path.getsize\<close> during the size scan, the
  observations of each task by its index, and \<open>should_cancel\<close> as
  \<open>emit_completion_signal\<close> reads it.\<close>

record run_obs =
  r_create :: bool
  r_connect :: "bool \<times> string"
  r_exists :: "path \<Rightarrow> bool"
  r_getsize :: "path \<Rightarrow> nat option"
  r_task :: "nat \<Rightarrow> task_obs"
  r_cancel_at_end :: bool

text \<open>The generator expression summed at worker.py 66; \<open>None\<close>: a \<open>getsize\<close> raised
  \<open>OSError\<close>.\<close>

fun sum_sizes :: "run_obs \<Rightarrow> (path \<times> path) list \<Rightarrow> nat option" where
  "sum_sizes ob [] = Some 0"
| "sum_sizes ob ((local_path, remote_path) # ts) =
     (if r_exists ob local_path then
        (case r_getsize ob local_path of
           None \<Rightarrow> None
         | Some n \<Rightarrow> (case sum_sizes ob ts of None \<Rightarrow> None | Some m \<Rightarrow> Some (n + m)))
      else sum_sizes ob ts)"

text \<open>worker.py 65-69: the total, and the log line of the handler.\<close>

definition compute_total :: "run_obs \<Rightarrow> (path \<times> path) list \<Rightarrow> event list \<times> nat" where
  "compute_total ob all_files =
     (case sum_sizes ob all_files of
        None \<Rightarrow> ([Log Error TotalSizeError], 0)
      | Some n \<Rightarrow> ([], n))"

text \<open>
  \<open>run\<close> (worker.py 43-79). The result is the trace, the final counters and the exception
  that ends the thread, if any; \<open>None\<close> when the run never returns (a pause wait that does
  not end). The \<open>finally\<close> clause puts \<open>disconnect\<close> at the end of every path that entered
  the \<open>try\<close>.
\<close>

definition run :: "worker \<Rightarrow> world \<Rightarrow> run_obs \<Rightarrow> (event list \<times> session \<times> py_error option) option" where
  "run self w ob =
     (let init = \<lparr>total_bytes = 0, uploaded_bytes = 0\<rparr>;
          start = [Log Info (Starting (max_threads self))]
      in if \<not> r_create ob then
           Some (start @ [Log Error CreateFailed, AllCompleted False ''Failed to create uploader'' 0 0], init, None)
         else
           (case r_connect ob of
              (False, message) \<Rightarrow>
                Some (start @ [Connect SessionConn, Log Error (ConnectError message),
                               AllCompleted False message 0 0, Disconnect SessionConn], init, None)
            | (True, message) \<Rightarrow>
                (case collect_files self w of
                   (cevs, all_files, Some e) \<Rightarrow>
                     Some (start @ [Connect SessionConn, Log Info ConnectedPreparing] @ cevs
                           @ [Disconnect SessionConn], init, Some e)
                 | (cevs, all_files, None) \<Rightarrow>
                     (case compute_total ob all_files of
                        (tevs, total_b) \<Rightarrow>
                          let st = init\<lparr>total_bytes := total_b\<rparr>;
                              pre = start @ [Connect SessionConn, Log Info ConnectedPreparing] @ cevs @ tevs
                                    @ [Log Info (FoundFiles (length all_files) total_b)]
                          in if max_threads self > 1 then
                               (case upload_files_threaded (max_retries self) st (r_task ob) (r_cancel_at_end ob) all_files of
                                  (evs, st') \<Rightarrow> Some (pre @ evs @ [Disconnect SessionConn], st', None))
                             else
                               (case upload_files_sequential (max_retries self) st (r_task ob) (r_cancel_at_end ob) all_files of
                                  None \<Rightarrow> None
                                | Some (evs, st', x) \<Rightarrow> Some (pre @ evs @ [Disconnect SessionConn], st', x))))))"

section \<open>Reading a trace\<close>

text \<open>The upload attempts and the sleeps of a trace.\<close>

fun is_attempt_event :: "event \<Rightarrow> bool" where
  "is_attempt_event (UploadFile k l r) = True"
| "is_attempt_event (Sleep d) = True"
| "is_attempt_event e = False"

text \<open>\<open>n\<close> calls of \<open>upload_file\<close> on one connection with a sleep of two seconds between
  consecutive calls, and none after the last.\<close>

fun expected_attempts :: "conn \<Rightarrow> path \<Rightarrow> path \<Rightarrow> nat \<Rightarrow> event list" where
  "expected_attempts k l r 0 = []"
| "expected_attempts k l r (Suc 0) = [UploadFile k l r]"
| "expected_attempts k l r (Suc (Suc n)) = UploadFile k l r # Sleep 2 # expected_attempts k l r (Suc n)"

text \<open>A callback that raises nothing and neither calls the adapter nor sleeps.\<close>

definition quiet :: "(callback_obs \<Rightarrow> event list \<times> py_error option) \<Rightarrow> bool" where
  "quiet cb = (\<forall>c. snd (cb c) = None \<and> filter is_attempt_event (fst (cb c)) = [])"

section \<open>Concrete inputs\<close>

text \<open>An attempt on which the adapter makes no progress call and reports a failure; a
  task all of whose attempts are such, for a file of 100 bytes; and the same task when
  the file has vanished before dispatch, so that no size can be read.\<close>

definition failing_attempt :: attempt_obs where
  "failing_attempt = \<lparr>at_cancel = False, at_callbacks = [], at_result = (False, ''timed out'')\<rparr>"

definition ob_all_fail :: task_obs where
  "ob_all_fail =
     \<lparr>t_cancel = False, t_pause = (\<lambda>k. (False, False)), t_create = True,
      t_connect = (True, ''Connected successfully''), t_size0 = Some 100, t_start = 0,
      t_attempt = (\<lambda>j. failing_attempt), t_end = 6, t_size_speed = Some 100,
      t_size_done = Some 100, t_collect_cancel = False\<rparr>"

definition ob_vanished :: task_obs where
  "ob_vanished = ob_all_fail\<lparr>t_size0 := None, t_size_speed := None, t_size_done := None\<rparr>"

definition st0 :: session where
  "st0 = \<lparr>total_bytes = 100, uploaded_bytes = 0\<rparr>"

text \<open>Two progress calls and a session expecting 2048 bytes.\<close>

definition cb_half :: callback_obs where
  "cb_half = \<lparr>cb_percent = 50, cb_cancel = False, cb_size = Some 1, cb_now = 1\<rparr>"

definition cb_full :: callback_obs where
  "cb_full = \<lparr>cb_percent = 100, cb_cancel = False, cb_size = Some 2048, cb_now = 1\<rparr>"

definition st_2048 :: session where
  "st_2048 = \<lparr>total_bytes = 2048, uploaded_bytes = 0\<rparr>"

text \<open>The progress call the FTP adapter makes after the first block of 8192 bytes of a
  file of 8267 bytes, one second after the start, in a session that uploads this file
  only.\<close>

definition cb_ftp :: callback_obs where
  "cb_ftp = \<lparr>cb_percent = ftp_percent 8192 8267, cb_cancel = False, cb_size = Some 8267, cb_now = 1\<rparr>"

definition st_8267 :: session where
  "st_8267 = \<lparr>total_bytes = 8267, uploaded_bytes = 0\<rparr>"

text \<open>An aggregate-progress event reports the percent 0 (any other event passes); and an
  upload of an empty file in a session whose total is zero.\<close>

fun zero_percent :: "event \<Rightarrow> bool" where
  "zero_percent (Overall u t p) = (p = 0)"
| "zero_percent e = True"

definition cb_empty :: callback_obs where
  "cb_empty = \<lparr>cb_percent = 50, cb_cancel = False, cb_size = Some 0, cb_now = 1\<rparr>"

definition ob_empty_file :: task_obs where
  "ob_empty_file =
     \<lparr>t_cancel = False, t_pause = (\<lambda>k. (False, False)), t_create = True,
      t_connect = (True, ''Connected successfully''), t_size0 = Some 0, t_start = 0,
      t_attempt = (\<lambda>j. \<lparr>at_cancel = False, at_callbacks = [cb_empty], at_result = (True, ''File uploaded successfully'')\<rparr>),
      t_end = 1, t_size_speed = Some 0, t_size_done = Some 0, t_collect_cancel = False\<rparr>"

definition st_empty :: session where
  "st_empty = \<lparr>total_bytes = 0, uploaded_bytes = 0\<rparr>"

text \<open>The session-completion signal; and a predicate that holds of every event a single
  upload can emit (a log line, a progress, speed or file-completion signal, an
  \<open>upload_file\<close> call, a sleep).\<close>

fun is_completion :: "event \<Rightarrow> bool" where
  "is_completion (AllCompleted ok m s f) = True"
| "is_completion e = False"

definition benign :: "(event \<Rightarrow> bool) \<Rightarrow> bool" where
  "benign P = ((\<forall>lv m. P (Log lv m)) \<and> (\<forall>p x. P (Progress p x)) \<and> (\<forall>u t p. P (Overall u t p))
      \<and> (\<forall>x. P (Speed x)) \<and> (\<forall>l s m v. P (FileCompleted l s m v))
      \<and> (\<forall>k l r. P (UploadFile k l r)) \<and> (\<forall>d. P (Sleep d)))"

text \<open>The total as the specification words it: the sum of the sizes of the collected tasks
  whose local file exists at scan time.\<close>

definition spec_total_bytes :: "run_obs \<Rightarrow> (path \<times> path) list \<Rightarrow> nat" where
  "spec_total_bytes ob all_files =
     sum_list (map (\<lambda>(l, r). case r_getsize ob l of Some n \<Rightarrow> n | None \<Rightarrow> 0)
                   (filter (\<lambda>(l, r). r_exists ob l) all_files))"

text \<open>A selection of one regular file \<open>a.txt\<close> of 100 bytes, uploaded by a pool of two
  threads; the session's own connection succeeds, the connection of the worker thread is
  refused (a server that limits the connections per user). And the same selection
  preceded by a path that no longer exists.\<close>

definition world_one :: world where
  "world_one = \<lparr>w_cwd = Some ''/home/u'', w_entry = (\<lambda>p. if p = ''a.txt'' then IsFile else Missing),
                 re_valid = (\<lambda>p. True), re_search = (\<lambda>p s. False)\<rparr>"

definition self_pool :: worker where
  "self_pool = \<lparr>files = [''a.txt''], remote_dir = '''', max_retries = 0, ignore_patterns = [],
                 max_threads = 2, include_hidden_files = False, upload_directory_contents_only = False\<rparr>"

definition ob_refused :: task_obs where
  "ob_refused = ob_all_fail\<lparr>t_connect := (False, ''Connection failed: too many connections'')\<rparr>"

definition run_refused :: run_obs where
  "run_refused = \<lparr>r_create = True, r_connect = (True, ''Connected successfully''), r_exists = (\<lambda>p. True),
                   r_getsize = (\<lambda>p. Some 100), r_task = (\<lambda>i. ob_refused), r_cancel_at_end = False\<rparr>"

definition self_gone :: worker where
  "self_gone = self_pool\<lparr>files := [''gone'', ''a.txt'']\<rparr>"

text \<open>A size scan in which every file that \<open>os.path.exists\<close> reports has a size that
  \<open>os.path.getsize\<close> can read.\<close>

definition scan_readable :: "run_obs \<Rightarrow> (path \<times> path) list \<Rightarrow> bool" where
  "scan_readable ob all_files = list_all (\<lambda>(l, r). r_exists ob l \<longrightarrow> r_getsize ob l \<noteq> None) all_files"

text \<open>A size scan over three tasks, one of which no longer exists; and a scan during
  which \<open>v.txt\<close> vanishes between the existence test and the size read.\<close>

definition scan_vanishing :: run_obs where
  "scan_vanishing = run_refused\<lparr>r_exists := (\<lambda>p. True),
                                  r_getsize := (\<lambda>p. if p = ''a.txt'' then Some 100 else if p = ''b.txt'' then Some 250 else None)\<rparr>"

definition scan_two :: run_obs where
  "scan_two = run_refused\<lparr>r_exists := (\<lambda>p. p \<noteq> ''gone.txt''),
                            r_getsize := (\<lambda>p. if p = ''a.txt'' then Some 100 else if p = ''b.txt'' then Some 250 else None)\<rparr>"

section \<open>Well-formed names and roots\<close>

text \<open>A name as a directory listing returns it: not empty, without a separator, and
  neither \<open>.\<close> nor \<open>..\<close>; and a tree all of whose names are such.\<close>

definition plain_name :: "string \<Rightarrow> bool" where
  "plain_name n = (n \<noteq> [] \<and> CHR ''/'' \<notin> set n \<and> n \<noteq> ''.'' \<and> n \<noteq> ''..'')"

fun plain_tree :: "tree \<Rightarrow> bool" where
  "plain_tree Unreadable = True"
| "plain_tree (Tree fs ds) = (list_all plain_name fs \<and> list_all (\<lambda>(d, t). plain_name d \<and> plain_tree t) ds)"

text \<open>A root given by its components \<open>cs\<close>, absolute or relative, written without a
  trailing separator; and the path of the entry reached from \<open>r\<close> through the names
  \<open>p\<close>.\<close>

definition root_path :: "bool \<Rightarrow> string list \<Rightarrow> path" where
  "root_path ab cs = (if ab then ''/'' else []) @ join_sep cs"

definition under :: "path \<Rightarrow> string list \<Rightarrow> path" where
  "under r p = r @ concat (map ((#) CHR ''/'') p)"

text \<open>The files \<open>os.walk\<close> reaches in a tree after pruning, each as the list of names
  from the root down to the file, in the order of the walk.\<close>

fun tree_paths :: "(string \<Rightarrow> bool) \<Rightarrow> tree \<Rightarrow> string list list" where
  "tree_paths ign Unreadable = []"
| "tree_paths ign (Tree fs ds) =
     map (\<lambda>f. [f]) (filter (\<lambda>f. \<not> ign f) fs)
     @ concat (map (\<lambda>(d, t). map ((#) d) (tree_paths ign t)) (filter (\<lambda>(d, t). \<not> ign d) ds))"

text \<open>The remote path as the specification words it: the path relative to the root
  itself (contents-only) or to the root's parent directory (preserve), joined under the
  remote base directory with forward slashes.\<close>

definition spec_remote_path :: "worker \<Rightarrow> world \<Rightarrow> path \<Rightarrow> path \<Rightarrow> py_error + path" where
  "spec_remote_path self w file_path local_file_path =
     (case relpath (w_cwd w) local_file_path
             (if upload_directory_contents_only self then file_path else join file_path ''..'') of
        Inl e \<Rightarrow> Inl e
      | Inr rel_path \<Rightarrow> Inr (replace_backslash (join (remote_dir self) rel_path)))"

text \<open>The specification's example: a directory \<open>root\<close> holding \<open>sub/file.txt\<close>, selected
  as \<open>root\<close>, and the same directory selected as \<open>root/\<close>.\<close>

definition tree_example :: tree where
  "tree_example = Tree [] [(''sub'', Tree [''file.txt''] [])]"

definition world_example :: world where
  "world_example = \<lparr>w_cwd = Some ''/home/u'',
     w_entry = (\<lambda>p. if p = ''root'' \<or> p = ''root/'' then IsDir tree_example else Missing),
     re_valid = (\<lambda>p. True), re_search = (\<lambda>p s. False)\<rparr>"

definition self_example :: worker where
  "self_example = \<lparr>files = [''root''], remote_dir = '''', max_retries = 0, ignore_patterns = [],
     max_threads = 1, include_hidden_files = False, upload_directory_contents_only = False\<rparr>"

definition self_slash :: worker where
  "self_slash = self_example\<lparr>files := [''root/'']\<rparr>"

section \<open>Properties of the double arithmetic\<close>

text \<open>
  \<open>float_exponent x\<close> is the binary exponent of \<open>x\<close>, and \<open>round_double x\<close> is a multiple of
  the spacing of the doubles at that exponent, at most half a spacing away from \<open>x\<close>:
  a nearest double.
\<close>

lemma ilog2_bounds: "0 < n \<Longrightarrow> 2 ^ ilog2 n \<le> n \<and> n < 2 * 2 ^ ilog2 n"
proof (induction n rule: ilog2.induct)
  case (1 n)
  show ?case
  proof (cases "n < 2")
    case True
    then have "n = 1" using "1.prems" by simp
    then show ?thesis by (simp add: ilog2.simps)
  next
    case False
    then have p: "0 < n div 2" by simp
    have e: "ilog2 n = Suc (ilog2 (n div 2))" using False by (subst ilog2.simps) simp
    from "1.IH" [OF False p] have a: "2 ^ ilog2 (n div 2) \<le> n div 2" and b: "n div 2 < 2 * 2 ^ ilog2 (n div 2)"
      by simp_all
    have "2 * 2 ^ ilog2 (n div 2) \<le> n" using a by simp
    moreover have "n < 2 * (2 * 2 ^ ilog2 (n div 2))" using b by simp
    ultimately show ?thesis by (simp add: e)
  qed
qed

lemma float_exponent_bounds:
  assumes "x \<noteq> 0"
  shows "pow2 (float_exponent x) \<le> \<bar>x\<bar> \<and> \<bar>x\<bar> < 2 * pow2 (float_exponent x)"
proof (cases "1 \<le> \<bar>x\<bar>")
  case True
  let ?n = "nat \<lfloor>\<bar>x\<bar>\<rfloor>"
  have n: "0 < ?n" using True by simp
  have e: "float_exponent x = int (ilog2 ?n)" using True by (simp add: float_exponent_def Let_def)
  from ilog2_bounds [OF n] have a: "2 ^ ilog2 ?n \<le> ?n" and b: "?n < 2 * 2 ^ ilog2 ?n" by simp_all
  have fl: "real ?n \<le> \<bar>x\<bar>" "\<bar>x\<bar> < real ?n + 1" using True by linarith+
  have "real (2 ^ ilog2 ?n) \<le> real ?n" using a by (rule of_nat_mono)
  then have a': "(2::real) ^ ilog2 ?n \<le> real ?n" by (simp only: of_nat_power of_nat_numeral)
  have lo: "2 ^ ilog2 ?n \<le> \<bar>x\<bar>" using a' fl(1) by linarith
  have "?n + 1 \<le> 2 * 2 ^ ilog2 ?n" using b by simp
  then have "real (?n + 1) \<le> real (2 * 2 ^ ilog2 ?n)" by (rule of_nat_mono)
  then have b': "real ?n + 1 \<le> 2 * (2::real) ^ ilog2 ?n"
    by (simp only: of_nat_add of_nat_mult of_nat_power of_nat_numeral of_nat_1)
  have hi: "\<bar>x\<bar> < 2 * 2 ^ ilog2 ?n" using b' fl(2) by linarith
  show ?thesis using lo hi by (simp add: e pow2_def)
next
  case False
  define y where "y = 1 / \<bar>x\<bar>"
  have ax: "0 < \<bar>x\<bar>" "\<bar>x\<bar> < 1" using assms False by simp_all
  have y1: "1 < y" using ax by (simp add: y_def)
  let ?m = "nat (\<lceil>y\<rceil> - 1)"
  have c2: "2 \<le> \<lceil>y\<rceil>" using y1 by linarith
  have m: "0 < ?m" using c2 by simp
  have e: "float_exponent x = - int (Suc (ilog2 ?m))" using False by (simp add: float_exponent_def Let_def y_def)
  from ilog2_bounds [OF m] have a: "2 ^ ilog2 ?m \<le> ?m" and b: "?m < 2 * 2 ^ ilog2 ?m" by simp_all
  have rm: "real ?m = of_int \<lceil>y\<rceil> - 1" using c2 by simp
  have "real (2 ^ ilog2 ?m) \<le> real ?m" using a by (rule of_nat_mono)
  then have a': "(2::real) ^ ilog2 ?m \<le> real ?m" by (simp only: of_nat_power of_nat_numeral)
  have c1: "real_of_int \<lceil>y\<rceil> - 1 < y" by linarith
  have lo: "2 ^ ilog2 ?m < y" using a' rm c1 by linarith
  have "?m + 1 \<le> 2 * 2 ^ ilog2 ?m" using b by simp
  then have "real (?m + 1) \<le> real (2 * 2 ^ ilog2 ?m)" by (rule of_nat_mono)
  then have b': "real ?m + 1 \<le> 2 * (2::real) ^ ilog2 ?m"
    by (simp only: of_nat_add of_nat_mult of_nat_power of_nat_numeral of_nat_1)
  have c3: "y \<le> real_of_int \<lceil>y\<rceil>" by linarith
  have hi: "y \<le> 2 * 2 ^ ilog2 ?m" using b' rm c3 by linarith
  have p: "(0::real) < 2 ^ ilog2 ?m" by simp
  have A: "1 / (2 * 2 ^ ilog2 ?m) \<le> \<bar>x\<bar>"
    using hi ax p by (simp add: y_def field_simps)
  have B: "\<bar>x\<bar> < 1 / 2 ^ ilog2 ?m"
    using lo ax p by (simp add: y_def field_simps)
  have n1: "nat (int (ilog2 ?m) + 1) = Suc (ilog2 ?m)" by simp
  show ?thesis using A B by (simp add: e pow2_def n1)
qed

lemma round_half_even_near: "\<bar>of_int (round_half_even y) - y\<bar> \<le> 1 / 2"
  by (simp add: round_half_even_def Let_def)

lemma round_double_nearest:
  assumes "x \<noteq> 0"
  shows "\<exists>k. round_double x = of_int k * pow2 (max (float_exponent x - 52) (- 1074))
           \<and> \<bar>round_double x - x\<bar> \<le> pow2 (max (float_exponent x - 52) (- 1074)) / 2"
proof -
  let ?q = "pow2 (max (float_exponent x - 52) (- 1074))"
  have q: "0 < ?q" by (simp add: pow2_def)
  let ?k = "round_half_even (x / ?q)"
  have r: "round_double x = of_int ?k * ?q" using assms by (simp add: round_double_def Let_def)
  have "\<bar>of_int ?k - x / ?q\<bar> \<le> 1 / 2" by (rule round_half_even_near)
  then have "\<bar>of_int ?k - x / ?q\<bar> * ?q \<le> 1 / 2 * ?q" using q by (simp add: mult_right_mono)
  moreover have "\<bar>of_int ?k - x / ?q\<bar> * ?q = \<bar>of_int ?k * ?q - x\<bar>"
  proof -
    have "(of_int ?k - x / ?q) * ?q = of_int ?k * ?q - x" using q by (simp add: field_simps)
    then have "\<bar>of_int ?k * ?q - x\<bar> = \<bar>of_int ?k - x / ?q\<bar> * \<bar>?q\<bar>" by (simp only: abs_mult [symmetric])
    then show ?thesis using q by simp
  qed
  ultimately have "\<bar>of_int ?k * ?q - x\<bar> \<le> ?q / 2" by simp
  then show ?thesis using r by auto
qed

text \<open>The definitions that evaluate the double arithmetic at given numbers.\<close>

lemmas double_arith = py_float_def f_add_def f_sub_def f_mul_def f_div_def int_truediv_def tenth_def
  round_double_def float_exponent_def pow2_def round_half_even_def ilog2.simps Let_def

section \<open>Properties of the throttle\<close>

lemma throttle_values:
  "int_truediv 6144 2048 = 3" "f_sub 11 10 = 1" "f_sub 3 1 = 2"
  "int_truediv 8192 3072 = 6004799503160661 / 2251799813685248"
  "f_sub 10 10 = 0" "f_sub (6004799503160661 / 2251799813685248) 0 = 6004799503160661 / 2251799813685248"
  "int_truediv 1024 1024 = 1" "f_sub 0 0 = 0" "f_sub 1 0 = 1" "int_truediv 1024 1 = 1024" "f_sub 1024 0 = 1024"
  by (simp_all add: double_arith)

text \<open>
  Claim C4, as the specification states it, fails: the configured number is a cap in
  KB/s, so the expected time divides by \<open>bandwidth_limit * 1024\<close>. With a limit of 1,
  an adapter just constructed and a call for 1024 bytes at the construction time, the
  code sleeps one second where the stated formula gives 1024 seconds.
\<close>

theorem C4_counterexample:
  "snd (throttle_bandwidth \<lparr>bandwidth_limit = 1, last_byte_time = 0, bytes_transferred = 0\<rparr> 0 1024) = Some 1
   \<and> spec_throttle_delay \<lparr>bandwidth_limit = 1, last_byte_time = 0, bytes_transferred = 0\<rparr> 0 1024 = Some 1024"
  by (simp add: throttle_bandwidth_def spec_throttle_delay_def throttle_values)

text \<open>Rounding keeps the sign, so the argument of \<open>time.sleep\<close> is never negative; and
  over successive calls on one adapter only the byte count changes, by the sum of the
  arguments.\<close>

lemma round_half_even_nonneg: "0 \<le> x \<Longrightarrow> 0 \<le> round_half_even x"
  by (simp add: round_half_even_def Let_def)

lemma pow2_pos: "0 < pow2 e"
  by (simp add: pow2_def)

lemma round_double_nonneg: "0 \<le> x \<Longrightarrow> 0 \<le> round_double x"
  using round_half_even_nonneg [of "x / pow2 (max (float_exponent x - 52) (- 1074))"]
    pow2_pos [of "max (float_exponent x - 52) (- 1074)"]
  by (simp add: round_double_def Let_def)

lemma throttle_bandwidth_fields:
  "bandwidth_limit (fst (throttle_bandwidth u t n)) = bandwidth_limit u
   \<and> last_byte_time (fst (throttle_bandwidth u t n)) = last_byte_time u
   \<and> bytes_transferred (fst (throttle_bandwidth u t n))
        = (if 0 < bandwidth_limit u then bytes_transferred u + n else bytes_transferred u)"
  by (simp add: throttle_bandwidth_def Let_def)

lemma throttle_calls_cumulative:
  "0 < bandwidth_limit u \<Longrightarrow>
   bytes_transferred (fst (foldl (\<lambda>s (t, n). throttle_bandwidth (fst s) t n) (u, d) calls))
     = bytes_transferred u + sum_list (map snd calls)
   \<and> bandwidth_limit (fst (foldl (\<lambda>s (t, n). throttle_bandwidth (fst s) t n) (u, d) calls)) = bandwidth_limit u
   \<and> last_byte_time (fst (foldl (\<lambda>s (t, n). throttle_bandwidth (fst s) t n) (u, d) calls)) = last_byte_time u"
proof (induction calls arbitrary: u d)
  case Nil
  then show ?case by simp
next
  case (Cons c calls)
  obtain t n where c: "c = (t, n)" by (cases c)
  obtain u' d' where st: "throttle_bandwidth u t n = (u', d')" by (cases "throttle_bandwidth u t n")
  have f: "bandwidth_limit u' = bandwidth_limit u" "last_byte_time u' = last_byte_time u"
    "bytes_transferred u' = bytes_transferred u + n"
    using throttle_bandwidth_fields [of u t n] Cons.prems by (simp_all add: st)
  have "0 < bandwidth_limit u'" using f Cons.prems by simp
  from Cons.IH [OF this, of d'] show ?case by (simp add: c st f)
qed

text \<open>
  Claim C4, amended: for an adapter whose configured cap is \<open>L\<close> KB/s, a call
  \<open>_throttle_bandwidth(n)\<close> with \<open>L \<le> 0\<close> (unlimited) returns at once, leaving the state
  alone and inserting no delay; with \<open>L > 0\<close> it adds \<open>n\<close> to the adapter's cumulative
  byte count and changes nothing else, computes the expected time
  \<open>cumulative / (L * 1024)\<close> and the actual time elapsed since the adapter was
  constructed, both as doubles, and sleeps for exactly their difference (as a double)
  when the actual time is smaller, and not at all otherwise. The sleep is never
  negative, and over any sequence of calls on one adapter with \<open>L > 0\<close> the cumulative
  count has grown by the sum of the arguments.
\<close>

theorem C4_throttle_amended:
  "(bandwidth_limit u \<le> 0 \<longrightarrow> throttle_bandwidth u t n = (u, None))
   \<and> (0 < bandwidth_limit u \<longrightarrow>
      (let cumulative = bytes_transferred u + n;
           expected = int_truediv cumulative (bandwidth_limit u * 1024);
           actual = f_sub t (last_byte_time u)
       in throttle_bandwidth u t n
            = (u\<lparr>bytes_transferred := cumulative\<rparr>,
               if actual < expected then Some (f_sub expected actual) else None))
      \<and> bytes_transferred (fst (foldl (\<lambda>s (t, n). throttle_bandwidth (fst s) t n) (u, None) calls))
           = bytes_transferred u + sum_list (map snd calls))
   \<and> (\<forall>d. snd (throttle_bandwidth u t n) = Some d \<longrightarrow> 0 \<le> d)"
proof -
  have A: "bandwidth_limit u \<le> 0 \<longrightarrow> throttle_bandwidth u t n = (u, None)"
    by (simp add: throttle_bandwidth_def)
  have B: "0 < bandwidth_limit u \<longrightarrow>
      (let cumulative = bytes_transferred u + n;
           expected = int_truediv cumulative (bandwidth_limit u * 1024);
           actual = f_sub t (last_byte_time u)
       in throttle_bandwidth u t n
            = (u\<lparr>bytes_transferred := cumulative\<rparr>,
               if actual < expected then Some (f_sub expected actual) else None))"
    by (simp add: throttle_bandwidth_def Let_def)
  have C: "0 < bandwidth_limit u \<longrightarrow>
      bytes_transferred (fst (foldl (\<lambda>s (t, n). throttle_bandwidth (fst s) t n) (u, None) calls))
           = bytes_transferred u + sum_list (map snd calls)"
    using throttle_calls_cumulative [of u None calls] by simp
  have D: "0 \<le> d" if "snd (throttle_bandwidth u t n) = Some d" for d
  proof -
    from that obtain a e where d: "d = f_sub e a" and lt: "a < e"
      by (auto simp: throttle_bandwidth_def Let_def split: if_splits)
    show ?thesis unfolding d f_sub_def using lt by (intro round_double_nonneg) simp
  qed
  show ?thesis using A B C D by blast
qed

theorem C4_throttle_amended_witness:
  "throttle_bandwidth \<lparr>bandwidth_limit = 0, last_byte_time = 0, bytes_transferred = 0\<rparr> 5 4096
     = (\<lparr>bandwidth_limit = 0, last_byte_time = 0, bytes_transferred = 0\<rparr>, None)
   \<and> throttle_bandwidth \<lparr>bandwidth_limit = 2, last_byte_time = 10, bytes_transferred = 2048\<rparr> 11 4096
     = (\<lparr>bandwidth_limit = 2, last_byte_time = 10, bytes_transferred = 6144\<rparr>, Some 2)
   \<and> throttle_bandwidth \<lparr>bandwidth_limit = 3, last_byte_time = 10, bytes_transferred = 0\<rparr> 10 8192
     = (\<lparr>bandwidth_limit = 3, last_byte_time = 10, bytes_transferred = 8192\<rparr>,
        Some (6004799503160661 / 2251799813685248))
   \<and> bytes_transferred (fst (foldl (\<lambda>s (t, n). throttle_bandwidth (fst s) t n)
        (\<lparr>bandwidth_limit = 2, last_byte_time = 10, bytes_transferred = 2048\<rparr>, None) [(11, 4096), (12, 2048)]))
     = 8192"
proof -
  note T1 = C4_throttle_amended [of "\<lparr>bandwidth_limit = 0, last_byte_time = 0, bytes_transferred = 0\<rparr>" 5 4096 "[]"]
  note T2 = C4_throttle_amended [of "\<lparr>bandwidth_limit = 2, last_byte_time = 10, bytes_transferred = 2048\<rparr>" 11 4096
      "[(11, 4096), (12, 2048)]"]
  note T3 = C4_throttle_amended [of "\<lparr>bandwidth_limit = 3, last_byte_time = 10, bytes_transferred = 0\<rparr>" 10 8192 "[]"]
  have A: "throttle_bandwidth \<lparr>bandwidth_limit = 0, last_byte_time = 0, bytes_transferred = 0\<rparr> 5 4096
     = (\<lparr>bandwidth_limit = 0, last_byte_time = 0, bytes_transferred = 0\<rparr>, None)"
    using T1 [THEN conjunct1] by simp
  have B: "throttle_bandwidth \<lparr>bandwidth_limit = 2, last_byte_time = 10, bytes_transferred = 2048\<rparr> 11 4096
     = (\<lparr>bandwidth_limit = 2, last_byte_time = 10, bytes_transferred = 6144\<rparr>, Some 2)"
    using T2 [THEN conjunct2, THEN conjunct1] by (simp add: Let_def throttle_values)
  have C: "throttle_bandwidth \<lparr>bandwidth_limit = 3, last_byte_time = 10, bytes_transferred = 0\<rparr> 10 8192
     = (\<lparr>bandwidth_limit = 3, last_byte_time = 10, bytes_transferred = 8192\<rparr>,
        Some (6004799503160661 / 2251799813685248))"
    using T3 [THEN conjunct2, THEN conjunct1] by (simp add: Let_def throttle_values)
  have p: "0 < bandwidth_limit \<lparr>bandwidth_limit = 2, last_byte_time = 10, bytes_transferred = 2048\<rparr>" by simp
  have D: "bytes_transferred (fst (foldl (\<lambda>s (t, n). throttle_bandwidth (fst s) t n)
        (\<lparr>bandwidth_limit = 2, last_byte_time = 10, bytes_transferred = 2048\<rparr>, None) [(11, 4096), (12, 2048)]))
     = 8192"
    using T2 [THEN conjunct2, THEN conjunct1, THEN mp, OF p, THEN conjunct2] by simp
  show ?thesis using A B C D by simp
qed


section \<open>Properties of the progress callbacks\<close>

text \<open>The guarded division never raises, so both callbacks have a closed form.\<close>

lemma overall_percent_expr_eq:
  "overall_percent_expr x t = Inr (if t > 0 then f_mul (f_div x (py_float (int t))) 100 else 0)"
  by (simp add: overall_percent_expr_def py_truediv_def)

lemma overall_percent_done_eq:
  "overall_percent_done u t = Inr (if t > 0 then f_mul (int_truediv (int u) (int t)) 100 else 0)"
  by (simp add: overall_percent_done_def py_truediv_int_def)

lemma progress_callback_eq:
  "progress_callback st l s c =
     (if cb_cancel c then ([], None)
      else case cb_size c of
        None \<Rightarrow> ([Progress l (cb_percent c), Log Warning (SizeWarning l)], None)
      | Some n \<Rightarrow>
         ([Progress l (cb_percent c),
           Overall (py_int (f_add (py_float (int (uploaded_bytes st))) (f_div (f_mul (py_float (int n)) (cb_percent c)) 100)))
             (int (total_bytes st))
             (if total_bytes st > 0
              then f_mul (f_div (f_add (py_float (int (uploaded_bytes st))) (f_div (f_mul (py_float (int n)) (cb_percent c)) 100))
                                (py_float (int (total_bytes st)))) 100
              else 0)]
          @ (if f_sub (cb_now c) s > 0
             then [Speed (f_div (f_div (f_div (f_mul (py_float (int n)) (cb_percent c)) 100) 1024) (f_sub (cb_now c) s))]
             else []), None))"
  by (simp add: progress_callback_def overall_percent_expr_eq Let_def split: option.splits)

lemma progress_callback_threaded_eq:
  "progress_callback_threaded st l n s c =
     (if cb_cancel c then ([], None)
      else
         ([Progress l (cb_percent c),
           Overall (py_int (f_add (py_float (int (uploaded_bytes st))) (f_div (f_mul (py_float (int n)) (cb_percent c)) 100)))
             (int (total_bytes st))
             (if total_bytes st > 0
              then f_mul (f_div (f_add (py_float (int (uploaded_bytes st))) (f_div (f_mul (py_float (int n)) (cb_percent c)) 100))
                                (py_float (int (total_bytes st)))) 100
              else 0)]
          @ (if f_sub (cb_now c) s > 0
             then [Speed (f_div (f_div (f_div (f_mul (py_float (int n)) (cb_percent c)) 100) 1024) (f_sub (cb_now c) s))]
             else []), None))"
  by (simp add: progress_callback_threaded_def overall_percent_expr_eq Let_def)

lemma run_callbacks_total:
  "(\<And>c. snd (cb c) = None) \<Longrightarrow> run_callbacks cb cs = (concat (map (\<lambda>c. fst (cb c)) cs), None)"
proof (induction cs)
  case Nil then show ?case by simp
next
  case (Cons c cs)
  obtain evs where "cb c = (evs, None)" using Cons.prems [of c] by (cases "cb c") auto
  then show ?case using Cons by simp
qed

lemma attempt_upload_total:
  "(\<And>c. snd (cb c) = None) \<Longrightarrow> attempt_upload cb a = (concat (map (\<lambda>c. fst (cb c)) (at_callbacks a)), at_result a)"
  by (simp add: attempt_upload_def run_callbacks_total)

section \<open>Properties of the retry loop\<close>

lemma quiet_progress_callback: "quiet (progress_callback st l s)"
  by (simp add: quiet_def progress_callback_eq split: option.splits)

lemma quiet_progress_callback_threaded: "quiet (progress_callback_threaded st l n s)"
  by (simp add: quiet_def progress_callback_threaded_eq)

lemma attempt_upload_quiet:
  assumes "quiet cb"
  shows "snd (attempt_upload cb a) = at_result a"
    and "filter is_attempt_event (fst (attempt_upload cb a)) = []"
proof -
  have t: "\<And>c. snd (cb c) = None" using assms by (simp add: quiet_def)
  have f: "\<And>c. filter is_attempt_event (fst (cb c)) = []" using assms by (simp add: quiet_def)
  show "snd (attempt_upload cb a) = at_result a" by (simp add: attempt_upload_total [OF t])
  have "filter is_attempt_event (concat (map (\<lambda>c. fst (cb c)) cs)) = []" for cs
    by (induction cs) (simp_all add: f)
  then show "filter is_attempt_event (fst (attempt_upload cb a)) = []"
    by (simp add: attempt_upload_total [OF t])
qed

lemma retry_loop_attempts:
  assumes q: "quiet cb"
    and n: "int n = mr + 1"
    and nc: "\<forall>j. i \<le> j \<and> j < n \<longrightarrow> \<not> at_cancel (obs j)"
    and fl: "\<forall>j. i \<le> j \<and> Suc j < n \<longrightarrow> \<not> fst (at_result (obs j))"
  shows "filter is_attempt_event (fst (retry_loop k l r mr cb obs [i..<n] r0)) = expected_attempts k l r (n - i)
       \<and> (i < n \<longrightarrow> snd (retry_loop k l r mr cb obs [i..<n] r0) = at_result (obs (n - 1)))"
  using nc fl
proof (induction "n - i" arbitrary: i r0)
  case 0
  then show ?case by simp
next
  case (Suc d)
  then have lt: "i < n" by simp
  have up: "[i..<n] = i # [Suc i..<n]" using lt by (simp add: upt_conv_Cons)
  obtain evs r' where au: "attempt_upload cb (obs i) = (evs, r')" by (cases "attempt_upload cb (obs i)")
  have r': "r' = at_result (obs i)" using attempt_upload_quiet(1) [OF q, of "obs i"] au by simp
  have evs: "filter is_attempt_event evs = []" using attempt_upload_quiet(2) [OF q, of "obs i"] au by simp
  have nci: "\<not> at_cancel (obs i)" using Suc.prems(1) lt by simp
  show ?case
  proof (cases "Suc i < n")
    case False
    then have last: "n = Suc i" using lt by simp
    have sl: "\<not> int i < mr" using n last by simp
    show ?thesis
      using nci evs r' sl by (simp add: up au last Let_def split: prod.splits)
  next
    case True
    then have fi: "\<not> fst r'" using Suc.prems(2) r' by simp
    have sl: "int i < mr" using n True by simp
    have d: "d = n - Suc i" using Suc.hyps(2) by simp
    have IH: "filter is_attempt_event (fst (retry_loop k l r mr cb obs [Suc i..<n] r')) = expected_attempts k l r (n - Suc i)
       \<and> (Suc i < n \<longrightarrow> snd (retry_loop k l r mr cb obs [Suc i..<n] r') = at_result (obs (n - 1)))"
      using Suc.hyps(1) [OF d] Suc.prems by simp
    obtain m where m: "n - i = Suc (Suc m)" "n - Suc i = Suc m"
      using True by (metis Suc_diff_Suc lt)
    obtain evs' r'' where rl: "retry_loop k l r mr cb obs [Suc i..<n] r' = (evs', r'')"
      by (cases "retry_loop k l r mr cb obs [Suc i..<n] r'")
    have step: "retry_loop k l r mr cb obs (i # [Suc i..<n]) r0
        = (((if i > 0 then [Log Warning (Retry i mr l)] else []) @ UploadFile k l r # evs) @ [Sleep 2] @ evs', r'')"
      using nci fi sl by (simp add: au rl Let_def)
    show ?thesis
      unfolding up step using evs IH lt True by (simp add: m rl)
  qed
qed

lemma filter_completion_events [simp]:
  "filter is_attempt_event (completion_events l s m v) = []"
  by (simp add: completion_events_def)

lemma upload_single_file_attempts:
  assumes mr: "0 \<le> mr"
    and nc: "\<forall>j\<le>nat mr. \<not> at_cancel (t_attempt ob j)"
    and fl: "\<forall>j<nat mr. \<not> fst (at_result (t_attempt ob j))"
  shows "filter is_attempt_event (fst (upload_single_file mr st k l r ob)) = expected_attempts k l r (nat mr + 1)"
    and "snd (snd (upload_single_file mr st k l r ob)) = Inr (fst (at_result (t_attempt ob (nat mr))))"
proof -
  let ?cb = "progress_callback st l (t_start ob)"
  define n where "n = nat (mr + 1)"
  have n: "int n = mr + 1" and nm: "n = nat mr + 1" and pos: "0 < n" using mr by (simp_all add: n_def)
  have nc': "\<forall>j. 0 \<le> j \<and> j < n \<longrightarrow> \<not> at_cancel (t_attempt ob j)" using nc nm by simp
  have fl': "\<forall>j. 0 \<le> j \<and> Suc j < n \<longrightarrow> \<not> fst (at_result (t_attempt ob j))" using fl nm by simp
  obtain evs s m where rl: "retry_loop k l r mr ?cb (t_attempt ob) [0..<n] (False, []) = (evs, (s, m))"
    by (cases "retry_loop k l r mr ?cb (t_attempt ob) [0..<n] (False, [])") auto
  from retry_loop_attempts [where cb = "?cb" and k = k and l = l and r = r and ?r0.0 = "(False, [])", OF quiet_progress_callback n nc' fl']
  have "filter is_attempt_event evs = expected_attempts k l r n"
    and "(s, m) = at_result (t_attempt ob (n - 1))"
    using pos by (simp_all add: rl)
  then have e: "filter is_attempt_event evs = expected_attempts k l r (nat mr + 1)"
    and s': "s = fst (at_result (t_attempt ob (nat mr)))"
    using nm by (simp_all, metis fst_conv)
  note rl' = rl [unfolded n_def]
  show "filter is_attempt_event (fst (upload_single_file mr st k l r ob)) = expected_attempts k l r (nat mr + 1)"
    using e by (simp add: upload_single_file_def rl' Let_def overall_percent_expr_eq overall_percent_done_eq split: option.splits prod.splits)
  show "snd (snd (upload_single_file mr st k l r ob)) = Inr (fst (at_result (t_attempt ob (nat mr))))"
    using s' by (simp add: upload_single_file_def rl' Let_def overall_percent_expr_eq overall_percent_done_eq split: option.splits prod.splits)
qed

lemma upload_single_file_threaded_attempts:
  assumes mr: "0 \<le> mr"
    and nc: "\<forall>j\<le>nat mr. \<not> at_cancel (t_attempt ob j)"
    and fl: "\<forall>j<nat mr. \<not> fst (at_result (t_attempt ob j))"
    and sz: "t_size0 ob = Some z"
  shows "filter is_attempt_event (fst (upload_single_file_threaded mr st k l r ob)) = expected_attempts k l r (nat mr + 1)"
    and "snd (snd (upload_single_file_threaded mr st k l r ob)) = Inr (fst (at_result (t_attempt ob (nat mr))))"
proof -
  let ?cb = "progress_callback_threaded st l z (t_start ob)"
  define n where "n = nat (mr + 1)"
  have n: "int n = mr + 1" and nm: "n = nat mr + 1" and pos: "0 < n" using mr by (simp_all add: n_def)
  have nc': "\<forall>j. 0 \<le> j \<and> j < n \<longrightarrow> \<not> at_cancel (t_attempt ob j)" using nc nm by simp
  have fl': "\<forall>j. 0 \<le> j \<and> Suc j < n \<longrightarrow> \<not> fst (at_result (t_attempt ob j))" using fl nm by simp
  obtain evs s m where rl: "retry_loop k l r mr ?cb (t_attempt ob) [0..<n] (False, []) = (evs, (s, m))"
    by (cases "retry_loop k l r mr ?cb (t_attempt ob) [0..<n] (False, [])") auto
  from retry_loop_attempts [where cb = "?cb" and k = k and l = l and r = r and ?r0.0 = "(False, [])", OF quiet_progress_callback_threaded n nc' fl']
  have "filter is_attempt_event evs = expected_attempts k l r n"
    and "(s, m) = at_result (t_attempt ob (n - 1))"
    using pos by (simp_all add: rl)
  then have e: "filter is_attempt_event evs = expected_attempts k l r (nat mr + 1)"
    and s': "s = fst (at_result (t_attempt ob (nat mr)))"
    using nm by (simp_all, metis fst_conv)
  note rl' = rl [unfolded n_def]
  show "filter is_attempt_event (fst (upload_single_file_threaded mr st k l r ob)) = expected_attempts k l r (nat mr + 1)"
    using e by (simp add: upload_single_file_threaded_def sz rl' Let_def overall_percent_expr_eq overall_percent_done_eq split: option.splits prod.splits)
  show "snd (snd (upload_single_file_threaded mr st k l r ob)) = Inr (fst (at_result (t_attempt ob (nat mr))))"
    using s' by (simp add: upload_single_file_threaded_def sz rl' Let_def overall_percent_expr_eq overall_percent_done_eq split: option.splits prod.splits)
qed

text \<open>
  Claim C1, as the specification states it, fails on the multi-threaded path:
  \<open>upload_single_file_threaded\<close> reads the file's size before its retry loop and returns
  \<open>False\<close> when that fails. With \<open>max_retries = 2\<close>, no cancellation and a file that
  vanished before dispatch, no upload attempt is made (three are claimed) and the task is
  counted as failed.
\<close>

theorem C1_counterexample:
  "\<not> at_cancel (t_attempt ob_vanished 0) \<and> \<not> at_cancel (t_attempt ob_vanished 1) \<and> \<not> at_cancel (t_attempt ob_vanished 2)
   \<and> filter is_attempt_event (fst (upload_single_file_threaded 2 st0 (WorkerConn 0) ''a.txt'' ''a.txt'' ob_vanished)) = []
   \<and> expected_attempts (WorkerConn 0) ''a.txt'' ''a.txt'' (nat 2 + 1) \<noteq> []
   \<and> snd (snd (snd (upload_worker 2 st0 0 ''a.txt'' ''a.txt'' ob_vanished (0, 0)))) = Inr False
   \<and> fst (snd (snd (upload_worker 2 st0 0 ''a.txt'' ''a.txt'' ob_vanished (0, 0)))) = (0, 1)"
  by (simp add: ob_vanished_def ob_all_fail_def failing_attempt_def upload_single_file_threaded_def
      upload_worker_def tally_def st0_def numeral_3_eq_3)

text \<open>
  Claim C1, amended. For every task and every \<open>max_retries \<ge> 0\<close>, when the cancel flag is
  not observed at any attempt and every attempt before the last allowed one fails:
  on the sequential path exactly \<open>max_retries + 1\<close> calls of \<open>upload_file\<close> are made, with
  a sleep of two seconds between consecutive calls and none after the last, the outcome
  \<open>ok\<close> of the last allowed attempt is returned, and the loop, once the task's pause wait
  has ended, counts the task as succeeded when \<open>ok\<close> and as failed otherwise; on the
  multi-threaded path, when the file's size could be read before the first attempt,
  \<open>upload_single_file_threaded\<close> makes the same calls and returns \<open>ok\<close>, and the worker
  thread, provided it obtained its adapter and its connection, keeps the same count.
  Whatever the attempts would have been, a task whose size cannot be read on the
  multi-threaded path is given no attempt at all: \<open>upload_single_file_threaded\<close> returns
  \<open>False\<close>, and the worker thread, under the same proviso, counts the task as failed.
\<close>

theorem C1_retries_amended:
  "(0 \<le> retries \<and> (\<forall>j\<le>nat retries. \<not> at_cancel (t_attempt ob j))
      \<and> (\<forall>j<nat retries. \<not> fst (at_result (t_attempt ob j))) \<longrightarrow>
     (let ok = fst (at_result (t_attempt ob (nat retries)));
          counted = (if ok then (fst c + 1, snd c) else (fst c, snd c + 1))
      in filter is_attempt_event (fst (upload_single_file retries st SessionConn l r ob))
           = expected_attempts SessionConn l r (nat retries + 1)
       \<and> snd (snd (upload_single_file retries st SessionConn l r ob)) = Inr ok
       \<and> (\<forall>n. pause_wait (t_pause ob) 0 = Some n \<longrightarrow>
             sequential_task retries st l r ob c
               = Some (replicate n (Sleep tenth) @ fst (upload_single_file retries st SessionConn l r ob),
                       fst (snd (upload_single_file retries st SessionConn l r ob)), counted, None))
       \<and> (t_size0 ob \<noteq> None \<longrightarrow>
             filter is_attempt_event (fst (upload_single_file_threaded retries st (WorkerConn i) l r ob))
               = expected_attempts (WorkerConn i) l r (nat retries + 1)
             \<and> snd (snd (upload_single_file_threaded retries st (WorkerConn i) l r ob)) = Inr ok
             \<and> (t_create ob \<and> fst (t_connect ob) \<longrightarrow>
                   filter is_attempt_event (fst (upload_worker retries st i l r ob c))
                     = expected_attempts (WorkerConn i) l r (nat retries + 1)
                   \<and> snd (snd (upload_worker retries st i l r ob c)) = (counted, Inr ok)))))
   \<and> (t_size0 ob = None \<longrightarrow>
         filter is_attempt_event (fst (upload_single_file_threaded retries st (WorkerConn i) l r ob)) = []
         \<and> snd (snd (upload_single_file_threaded retries st (WorkerConn i) l r ob)) = Inr False
         \<and> (t_create ob \<and> fst (t_connect ob) \<longrightarrow>
               filter is_attempt_event (fst (upload_worker retries st i l r ob c)) = []
               \<and> snd (snd (upload_worker retries st i l r ob c)) = ((fst c, snd c + 1), Inr False)))"
proof -
  let ?ok = "fst (at_result (t_attempt ob (nat retries)))"
  let ?counted = "if ?ok then (fst c + 1, snd c) else (fst c, snd c + 1)"
  have wrk: "filter is_attempt_event (fst (upload_worker retries st i l r ob c))
                = filter is_attempt_event (fst (upload_single_file_threaded retries st (WorkerConn i) l r ob))
          \<and> snd (snd (upload_worker retries st i l r ob c)) = (tally b c, Inr b)"
    if cr: "t_create ob \<and> fst (t_connect ob)"
      and b: "snd (snd (upload_single_file_threaded retries st (WorkerConn i) l r ob)) = Inr b" for b
    using cr b
    by (cases "t_connect ob"; cases "upload_single_file_threaded retries st (WorkerConn i) l r ob")
       (auto simp: upload_worker_def)
  have gone: "filter is_attempt_event (fst (upload_single_file_threaded retries st (WorkerConn i) l r ob)) = []
          \<and> snd (snd (upload_single_file_threaded retries st (WorkerConn i) l r ob)) = Inr False"
    if "t_size0 ob = None"
    using that by (simp add: upload_single_file_threaded_def)
  have w2: "filter is_attempt_event (fst (upload_worker retries st i l r ob c)) = []
                   \<and> snd (snd (upload_worker retries st i l r ob c)) = ((fst c, snd c + 1), Inr False)"
    if "t_size0 ob = None" "t_create ob \<and> fst (t_connect ob)"
    using wrk [of False] gone that by (simp add: tally_def)
  have B: "t_size0 ob = None \<longrightarrow>
         filter is_attempt_event (fst (upload_single_file_threaded retries st (WorkerConn i) l r ob)) = []
         \<and> snd (snd (upload_single_file_threaded retries st (WorkerConn i) l r ob)) = Inr False
         \<and> (t_create ob \<and> fst (t_connect ob) \<longrightarrow>
               filter is_attempt_event (fst (upload_worker retries st i l r ob c)) = []
               \<and> snd (snd (upload_worker retries st i l r ob c)) = ((fst c, snd c + 1), Inr False))"
    using gone w2 by blast
  have A: "filter is_attempt_event (fst (upload_single_file retries st SessionConn l r ob))
           = expected_attempts SessionConn l r (nat retries + 1)
       \<and> snd (snd (upload_single_file retries st SessionConn l r ob)) = Inr ?ok
       \<and> (\<forall>n. pause_wait (t_pause ob) 0 = Some n \<longrightarrow>
             sequential_task retries st l r ob c
               = Some (replicate n (Sleep tenth) @ fst (upload_single_file retries st SessionConn l r ob),
                       fst (snd (upload_single_file retries st SessionConn l r ob)), ?counted, None))
       \<and> (t_size0 ob \<noteq> None \<longrightarrow>
             filter is_attempt_event (fst (upload_single_file_threaded retries st (WorkerConn i) l r ob))
               = expected_attempts (WorkerConn i) l r (nat retries + 1)
             \<and> snd (snd (upload_single_file_threaded retries st (WorkerConn i) l r ob)) = Inr ?ok
             \<and> (t_create ob \<and> fst (t_connect ob) \<longrightarrow>
                   filter is_attempt_event (fst (upload_worker retries st i l r ob c))
                     = expected_attempts (WorkerConn i) l r (nat retries + 1)
                   \<and> snd (snd (upload_worker retries st i l r ob c)) = (?counted, Inr ?ok)))"
    if h: "0 \<le> retries" "\<forall>j\<le>nat retries. \<not> at_cancel (t_attempt ob j)"
      "\<forall>j<nat retries. \<not> fst (at_result (t_attempt ob j))"
  proof -
    note s = upload_single_file_attempts [OF h, where k = SessionConn and l = l and r = r and st = st]
    have seq: "sequential_task retries st l r ob c
        = Some (replicate n (Sleep tenth) @ fst (upload_single_file retries st SessionConn l r ob),
                fst (snd (upload_single_file retries st SessionConn l r ob)), ?counted, None)"
      if "pause_wait (t_pause ob) 0 = Some n" for n
      using that s(2)
      by (cases "upload_single_file retries st SessionConn l r ob")
         (auto simp: sequential_task_def tally_def)
    have thr: "filter is_attempt_event (fst (upload_single_file_threaded retries st (WorkerConn i) l r ob))
                    = expected_attempts (WorkerConn i) l r (nat retries + 1)
            \<and> snd (snd (upload_single_file_threaded retries st (WorkerConn i) l r ob)) = Inr ?ok"
      if sz: "t_size0 ob \<noteq> None"
    proof -
      obtain z where z: "t_size0 ob = Some z" using sz by auto
      from upload_single_file_threaded_attempts [OF h z, where k = "WorkerConn i" and l = l and r = r and st = st]
      show ?thesis by simp
    qed
    have w1: "filter is_attempt_event (fst (upload_worker retries st i l r ob c))
                       = expected_attempts (WorkerConn i) l r (nat retries + 1)
                     \<and> snd (snd (upload_worker retries st i l r ob c)) = (?counted, Inr ?ok)"
      if "t_size0 ob \<noteq> None" "t_create ob \<and> fst (t_connect ob)"
      using wrk [of ?ok] thr that by (simp add: tally_def)
    show ?thesis using s seq thr w1 by blast
  qed
  show ?thesis
    unfolding Let_def using A B by blast
qed

theorem C1_retries_amended_witness:
  "filter is_attempt_event (fst (upload_single_file 2 st0 SessionConn ''a.txt'' ''a.txt'' ob_all_fail))
     = [UploadFile SessionConn ''a.txt'' ''a.txt'', Sleep 2, UploadFile SessionConn ''a.txt'' ''a.txt'', Sleep 2,
        UploadFile SessionConn ''a.txt'' ''a.txt'']
   \<and> snd (snd (upload_single_file 2 st0 SessionConn ''a.txt'' ''a.txt'' ob_all_fail)) = Inr False
   \<and> map_option (\<lambda>res. snd (snd res)) (sequential_task 2 st0 ''a.txt'' ''a.txt'' ob_all_fail (0, 0))
       = Some ((0, 1), None)
   \<and> filter is_attempt_event (fst (upload_worker 2 st0 0 ''a.txt'' ''a.txt'' ob_all_fail (0, 0)))
     = [UploadFile (WorkerConn 0) ''a.txt'' ''a.txt'', Sleep 2, UploadFile (WorkerConn 0) ''a.txt'' ''a.txt'', Sleep 2,
        UploadFile (WorkerConn 0) ''a.txt'' ''a.txt'']
   \<and> snd (snd (upload_worker 2 st0 0 ''a.txt'' ''a.txt'' ob_all_fail (0, 0))) = ((0, 1), Inr False)
   \<and> filter is_attempt_event (fst (upload_worker 2 st0 0 ''a.txt'' ''a.txt'' ob_vanished (0, 0))) = []
   \<and> snd (snd (upload_worker 2 st0 0 ''a.txt'' ''a.txt'' ob_vanished (0, 0))) = ((0, 1), Inr False)"
proof -
  have p: "pause_wait (t_pause ob_all_fail) 0 = Some 0"
    by (subst pause_wait.simps) (simp add: ob_all_fail_def)
  have h: "0 \<le> (2::int) \<and> (\<forall>j\<le>nat 2. \<not> at_cancel (t_attempt ob_all_fail j))
      \<and> (\<forall>j<nat 2. \<not> fst (at_result (t_attempt ob_all_fail j)))"
    by (simp add: ob_all_fail_def failing_attempt_def)
  have ok: "\<not> fst (at_result (t_attempt ob_all_fail (nat 2)))"
    by (simp add: ob_all_fail_def failing_attempt_def)
  have w: "t_size0 ob_all_fail \<noteq> None" "t_create ob_all_fail" "fst (t_connect ob_all_fail)"
    by (simp_all add: ob_all_fail_def)
  have v: "t_size0 ob_vanished = None" "t_create ob_vanished" "fst (t_connect ob_vanished)"
    by (simp_all add: ob_vanished_def ob_all_fail_def)
  note T1 = C1_retries_amended [where c = "(0, 0)" and st = st0 and retries = 2 and ob = ob_all_fail
          and l = "''a.txt''" and r = "''a.txt''" and i = 0]
  note T2 = C1_retries_amended [where c = "(0, 0)" and st = st0 and retries = 2 and ob = ob_vanished
          and l = "''a.txt''" and r = "''a.txt''" and i = 0]
  from T1 [THEN conjunct1, THEN mp, OF h, unfolded Let_def] p ok w
  have A: "filter is_attempt_event (fst (upload_single_file 2 st0 SessionConn ''a.txt'' ''a.txt'' ob_all_fail))
     = [UploadFile SessionConn ''a.txt'' ''a.txt'', Sleep 2, UploadFile SessionConn ''a.txt'' ''a.txt'', Sleep 2,
        UploadFile SessionConn ''a.txt'' ''a.txt'']
   \<and> snd (snd (upload_single_file 2 st0 SessionConn ''a.txt'' ''a.txt'' ob_all_fail)) = Inr False
   \<and> map_option (\<lambda>res. snd (snd res)) (sequential_task 2 st0 ''a.txt'' ''a.txt'' ob_all_fail (0, 0))
       = Some ((0, 1), None)
   \<and> filter is_attempt_event (fst (upload_worker 2 st0 0 ''a.txt'' ''a.txt'' ob_all_fail (0, 0)))
     = [UploadFile (WorkerConn 0) ''a.txt'' ''a.txt'', Sleep 2, UploadFile (WorkerConn 0) ''a.txt'' ''a.txt'', Sleep 2,
        UploadFile (WorkerConn 0) ''a.txt'' ''a.txt'']
   \<and> snd (snd (upload_worker 2 st0 0 ''a.txt'' ''a.txt'' ob_all_fail (0, 0))) = ((0, 1), Inr False)"
    by (simp add: numeral_3_eq_3)
  from T2 [THEN conjunct2, THEN mp, OF v(1)] v
  have B: "filter is_attempt_event (fst (upload_worker 2 st0 0 ''a.txt'' ''a.txt'' ob_vanished (0, 0))) = []
   \<and> snd (snd (upload_worker 2 st0 0 ''a.txt'' ''a.txt'' ob_vanished (0, 0))) = ((0, 1), Inr False)"
    by simp
  show ?thesis using A B by simp
qed


section \<open>Progress accounting\<close>

text \<open>Values of the double arithmetic at the inputs used below. The quotient
  \<open>8192 / 8267\<close> and the percent \<open>8192 / 8267 * 100\<close> are not exact; the product of the
  latter with 8267 rounds to 819200, so that the byte count reported is 8192, where the
  exact product would truncate to 8191.\<close>

lemma progress_values:
  "py_float 0 = 0" "py_float 1 = 1" "py_float 2048 = 2048" "py_float 8267 = 8267"
  "f_mul 2048 100 = 204800" "f_div 204800 100 = 2048" "f_add 0 2048 = 2048"
  "f_div 2048 2048 = 1" "f_mul 1 100 = 100" "f_sub 1 0 = 1" "f_div 2048 1024 = 2" "f_div 2 1 = 2"
  "f_div 2048 1 = 2048"
  "f_mul 1 50 = 50" "f_div 50 100 = 1 / 2" "f_add 0 (1 / 2) = 1 / 2" "f_div (1 / 2) 2048 = 1 / 4096"
  "f_mul (1 / 4096) 100 = 25 / 1024" "f_div (1 / 2) 1024 = 1 / 2048" "f_div (1 / 2048) 1 = 1 / 2048"
  "f_div 819200 100 = 8192" "f_add 0 8192 = 8192" "f_div 8192 1024 = 8" "f_div 8 1 = 8"
  by (simp_all add: double_arith)

lemma ftp_percent_value:
  "ftp_percent 8192 8267 = 871629297664545 / 8796093022208"
  "f_mul 8267 (871629297664545 / 8796093022208) = 819200"
  "f_div 8192 8267 = 8925484008084941 / 9007199254740992"
  "f_mul (8925484008084941 / 9007199254740992) 100 = 871629297664545 / 8796093022208"
  "py_int (8267 * (871629297664545 / 8796093022208) / 100) = 8191"
  by (simp_all add: double_arith ftp_percent_def py_int_def)

text \<open>
  Claim C5, as the specification states it, fails: the speed sample is in KB/s, that is
  \<open>bytes_this_file / 1024 / elapsed\<close>. For a file of 2048 bytes reported at 100 percent
  one second after its start, the code emits the sample 2 where the stated formula
  gives 2048.
\<close>

theorem C5_counterexample:
  "fst (progress_callback st_2048 ''a.bin'' 0 cb_full)
     = [Progress ''a.bin'' 100, Overall 2048 2048 100, Speed 2]
   \<and> spec_speed_sample 2048 100 (f_sub (cb_now cb_full) 0) = 2048
   \<and> Speed (spec_speed_sample 2048 100 (f_sub (cb_now cb_full) 0)) \<notin> set (fst (progress_callback st_2048 ''a.bin'' 0 cb_full))"
  by (simp add: progress_callback_eq cb_full_def st_2048_def spec_speed_sample_def py_int_def progress_values)

text \<open>
  Claim C5, amended: a \<open>progress_cb(percent)\<close> call made while the cancel flag is set
  reports nothing. Otherwise, for a task of size \<open>S\<close> (on the sequential path the size
  is read again at each call, and a call at which it cannot be read reports the file's
  percent and logs a warning), it reports the file's percent, then the aggregate event
  carrying \<open>int(uploaded_bytes + S * percent / 100)\<close>, the sum being evaluated in double
  arithmetic in this order and truncated toward zero, \<open>total_bytes\<close>, and the overall
  percent \<open>(uploaded_bytes + S * percent / 100) / total_bytes * 100\<close>, again as a double
  (0 when \<open>total_bytes\<close> is 0); and, when the time elapsed since the file's start is
  positive, the speed sample \<open>S * percent / 100 / 1024 / elapsed\<close> in KB/s. No call
  raises, and no call changes \<open>uploaded_bytes\<close>: every call of one upload reports against
  the same global count, so the file's current fractional contribution replaces its
  earlier one.
\<close>

theorem C5_progress_amended:
  "(cb_cancel c \<longrightarrow>
      progress_callback st l start c = ([], None) \<and> progress_callback_threaded st l S start c = ([], None))
   \<and> (\<not> cb_cancel c \<longrightarrow>
      (let report = (\<lambda>S.
             let bytes_this_file = f_div (f_mul (py_float (int S)) (cb_percent c)) 100;
                 overall_bytes = f_add (py_float (int (uploaded_bytes st))) bytes_this_file;
                 elapsed = f_sub (cb_now c) start
             in [Progress l (cb_percent c),
                 Overall (py_int overall_bytes) (int (total_bytes st))
                   (if total_bytes st > 0
                    then f_mul (f_div overall_bytes (py_float (int (total_bytes st)))) 100 else 0)]
                @ (if elapsed > 0 then [Speed (f_div (f_div bytes_this_file 1024) elapsed)] else []))
       in (\<forall>S'. cb_size c = Some S' \<longrightarrow> progress_callback st l start c = (report S', None))
          \<and> (cb_size c = None \<longrightarrow>
                progress_callback st l start c = ([Progress l (cb_percent c), Log Warning (SizeWarning l)], None))
          \<and> progress_callback_threaded st l S start c = (report S, None)))
   \<and> run_callbacks (progress_callback st l start) cs
        = (concat (map (\<lambda>c. fst (progress_callback st l start c)) cs), None)
   \<and> run_callbacks (progress_callback_threaded st l S start) cs
        = (concat (map (\<lambda>c. fst (progress_callback_threaded st l S start c)) cs), None)"
proof -
  have a: "\<And>c. snd (progress_callback st l start c) = None"
    by (simp add: progress_callback_eq split: option.splits)
  have b: "\<And>c. snd (progress_callback_threaded st l S start c) = None"
    by (simp add: progress_callback_threaded_eq)
  show ?thesis
    by (simp add: run_callbacks_total [OF a] run_callbacks_total [OF b] progress_callback_eq
        progress_callback_threaded_eq Let_def)
qed

theorem C5_progress_amended_witness:
  "progress_callback st_2048 ''a.bin'' 0 cb_full = ([Progress ''a.bin'' 100, Overall 2048 2048 100, Speed 2], None)
   \<and> progress_callback_threaded st_2048 ''a.bin'' 1 0 cb_half
        = ([Progress ''a.bin'' 50, Overall 0 2048 (25 / 1024), Speed (1 / 2048)], None)
   \<and> progress_callback st_2048 ''a.bin'' 0 (cb_full\<lparr>cb_cancel := True\<rparr>) = ([], None)
   \<and> progress_callback st_2048 ''a.bin'' 0 (cb_full\<lparr>cb_size := None\<rparr>)
        = ([Progress ''a.bin'' 100, Log Warning (SizeWarning ''a.bin'')], None)
   \<and> progress_callback_threaded st_8267 ''a.bin'' 8267 0 cb_ftp
        = ([Progress ''a.bin'' (871629297664545 / 8796093022208),
            Overall 8192 8267 (871629297664545 / 8796093022208), Speed 8], None)"
  using C5_progress_amended [of cb_full st_2048 "''a.bin''" 0 1 "[]"]
        C5_progress_amended [of cb_half st_2048 "''a.bin''" 0 1 "[]"]
        C5_progress_amended [of "cb_full\<lparr>cb_cancel := True\<rparr>" st_2048 "''a.bin''" 0 1 "[]"]
        C5_progress_amended [of "cb_full\<lparr>cb_size := None\<rparr>" st_2048 "''a.bin''" 0 1 "[]"]
        C5_progress_amended [of cb_ftp st_8267 "''a.bin''" 0 8267 "[]"]
  by (simp add: cb_full_def cb_half_def cb_ftp_def st_2048_def st_8267_def py_int_def Let_def
      progress_values ftp_percent_value)

section \<open>No division by a zero total\<close>

lemma zero_percent_callback:
  "total_bytes st = 0 \<Longrightarrow> list_all zero_percent (fst (progress_callback st l s c))"
  by (simp add: progress_callback_eq split: option.splits)

lemma zero_percent_callback_threaded:
  "total_bytes st = 0 \<Longrightarrow> list_all zero_percent (fst (progress_callback_threaded st l n s c))"
  by (simp add: progress_callback_threaded_eq)

lemma zero_percent_run_callbacks:
  "\<forall>c. list_all zero_percent (fst (cb c)) \<Longrightarrow> list_all zero_percent (fst (run_callbacks cb cs))"
proof (induction cs)
  case Nil then show ?case by simp
next
  case (Cons c cs)
  have "list_all zero_percent (fst (cb c))" using Cons.prems by simp
  then show ?case
    using Cons
    by (cases "cb c"; cases "snd (cb c)"; cases "run_callbacks cb cs") auto
qed

lemma zero_percent_attempt:
  "\<forall>c. list_all zero_percent (fst (cb c)) \<Longrightarrow> list_all zero_percent (fst (attempt_upload cb a))"
  using zero_percent_run_callbacks [of cb "at_callbacks a"]
  by (cases "run_callbacks cb (at_callbacks a)") (auto simp: attempt_upload_def split: option.splits)

lemma zero_percent_retry_loop:
  assumes "\<forall>c. list_all zero_percent (fst (cb c))"
  shows "list_all zero_percent (fst (retry_loop k l r mr cb obs js r0))"
proof (induction js arbitrary: r0)
  case Nil then show ?case by simp
next
  case (Cons j js)
  obtain evs r' where a: "attempt_upload cb (obs j) = (evs, r')" by (cases "attempt_upload cb (obs j)")
  have e: "list_all zero_percent evs" using zero_percent_attempt [OF assms, where a = "obs j"] a by simp
  obtain evs' r'' where b: "retry_loop k l r mr cb obs js r' = (evs', r'')"
    by (cases "retry_loop k l r mr cb obs js r'")
  have e': "list_all zero_percent evs'" using Cons.IH [of r'] b by simp
  show ?case using e e' by (simp add: a b Let_def)
qed

lemma zero_percent_completion [simp]: "list_all zero_percent (completion_events l s m v)"
  by (simp add: completion_events_def)

lemma upload_single_file_zero:
  assumes "total_bytes st = 0"
  shows "list_all zero_percent (fst (upload_single_file mr st k l r ob))"
proof -
  let ?cb = "progress_callback st l (t_start ob)"
  obtain evs s m where rl: "retry_loop k l r mr ?cb (t_attempt ob) [0..<nat (mr + 1)] (False, []) = (evs, (s, m))"
    by (cases "retry_loop k l r mr ?cb (t_attempt ob) [0..<nat (mr + 1)] (False, [])") auto
  have "list_all zero_percent evs"
    using zero_percent_retry_loop [where cb = ?cb and k = k and l = l and r = r and mr = mr and obs = "t_attempt ob"
          and js = "[0..<nat (mr + 1)]" and ?r0.0 = "(False, [])"]
      zero_percent_callback [OF assms] by (simp add: rl)
  then show ?thesis
    using assms by (simp add: upload_single_file_def rl Let_def overall_percent_expr_eq overall_percent_done_eq split: option.splits prod.splits)
qed

lemma upload_single_file_threaded_zero:
  assumes "total_bytes st = 0"
  shows "list_all zero_percent (fst (upload_single_file_threaded mr st k l r ob))"
proof (cases "t_size0 ob")
  case None
  then show ?thesis by (simp add: upload_single_file_threaded_def)
next
  case (Some z)
  let ?cb = "progress_callback_threaded st l z (t_start ob)"
  obtain evs s m where rl: "retry_loop k l r mr ?cb (t_attempt ob) [0..<nat (mr + 1)] (False, []) = (evs, (s, m))"
    by (cases "retry_loop k l r mr ?cb (t_attempt ob) [0..<nat (mr + 1)] (False, [])") auto
  have "list_all zero_percent evs"
    using zero_percent_retry_loop [where cb = ?cb and k = k and l = l and r = r and mr = mr and obs = "t_attempt ob"
          and js = "[0..<nat (mr + 1)]" and ?r0.0 = "(False, [])"]
      zero_percent_callback_threaded [OF assms] by (simp add: rl)
  then show ?thesis
    using assms by (simp add: upload_single_file_threaded_def Some rl Let_def overall_percent_expr_eq overall_percent_done_eq)
qed

lemma upload_single_file_returns:
  "\<exists>b. snd (snd (upload_single_file mr st k l r ob)) = Inr b"
  by (auto simp: upload_single_file_def Let_def overall_percent_expr_eq overall_percent_done_eq split: option.splits prod.splits)

lemma upload_single_file_threaded_returns:
  "\<exists>b. snd (snd (upload_single_file_threaded mr st k l r ob)) = Inr b"
  by (auto simp: upload_single_file_threaded_def Let_def overall_percent_expr_eq overall_percent_done_eq split: option.splits prod.splits)

lemma upload_single_file_total:
  "total_bytes (fst (snd (upload_single_file mr st k l r ob))) = total_bytes st"
  by (simp add: upload_single_file_def Let_def overall_percent_expr_eq overall_percent_done_eq split: option.splits prod.splits)

lemma upload_single_file_threaded_total:
  "total_bytes (fst (snd (upload_single_file_threaded mr st k l r ob))) = total_bytes st"
  by (simp add: upload_single_file_threaded_def Let_def overall_percent_expr_eq overall_percent_done_eq split: option.splits prod.splits)

lemma sequential_task_zero:
  assumes "total_bytes st = 0" and "sequential_task mr st l r ob c = Some (evs, st', c', x)"
  shows "list_all zero_percent evs \<and> total_bytes st' = 0 \<and> x = None"
proof -
  obtain es s2 res where u: "upload_single_file mr st SessionConn l r ob = (es, s2, res)"
    by (cases "upload_single_file mr st SessionConn l r ob")
  have z: "list_all zero_percent es" using upload_single_file_zero [OF assms(1), of mr SessionConn l r ob] u by simp
  have t: "total_bytes s2 = 0" using upload_single_file_total [of mr st SessionConn l r ob] u assms(1) by simp
  obtain b where b: "res = Inr b" using upload_single_file_returns [of mr st SessionConn l r ob] u by auto
  have rep: "list_all zero_percent (replicate n (Sleep tenth))" for n by (induction n) simp_all
  show ?thesis
    using assms(2) z t rep by (auto simp: sequential_task_def u b split: option.splits)
qed

lemma sequential_loop_zero:
  "total_bytes st = 0 \<Longrightarrow> sequential_loop mr st obs i ts c = Some (evs, st', c', x)
   \<Longrightarrow> list_all zero_percent evs \<and> total_bytes st' = 0 \<and> x = None"
proof (induction ts arbitrary: st i c evs)
  case Nil
  then show ?case by simp
next
  case (Cons t ts)
  obtain l r where t: "t = (l, r)" by (cases t)
  show ?case
  proof (cases "t_cancel (obs i)")
    case True
    then show ?thesis using Cons.prems by (simp add: t)
  next
    case False
    from Cons.prems(2) False obtain e1 s1 c1 x1 where
      st: "sequential_task mr st l r (obs i) c = Some (e1, s1, c1, x1)"
      by (auto simp: t split: option.splits)
    from sequential_task_zero [OF Cons.prems(1) st]
    have z1: "list_all zero_percent e1" and t1: "total_bytes s1 = 0" and x1: "x1 = None" by simp_all
    from Cons.prems(2) False obtain e2 where
      sl: "sequential_loop mr s1 obs (Suc i) ts c1 = Some (e2, st', c', x)" and ev: "evs = e1 @ e2"
      by (auto simp: t st x1 split: option.splits)
    from Cons.IH [OF t1 sl] show ?thesis using z1 ev by simp
  qed
qed

lemma upload_worker_zero:
  assumes "total_bytes st = 0"
  shows "list_all zero_percent (fst (upload_worker mr st i l r ob c))
       \<and> total_bytes (fst (snd (upload_worker mr st i l r ob c))) = 0
       \<and> (\<exists>b. snd (snd (snd (upload_worker mr st i l r ob c))) = Inr b)"
proof -
  obtain es s2 res where u: "upload_single_file_threaded mr st (WorkerConn i) l r ob = (es, s2, res)"
    by (cases "upload_single_file_threaded mr st (WorkerConn i) l r ob")
  have z: "list_all zero_percent es"
    using upload_single_file_threaded_zero [OF assms, of mr "WorkerConn i" l r ob] u by simp
  have t: "total_bytes s2 = 0"
    using upload_single_file_threaded_total [of mr st "WorkerConn i" l r ob] u assms by simp
  obtain b where b: "res = Inr b"
    using upload_single_file_threaded_returns [of mr st "WorkerConn i" l r ob] u by auto
  show ?thesis
    using z t assms by (cases "t_connect ob") (auto simp: upload_worker_def u b split: bool.splits)
qed

lemma threaded_loop_zero:
  "total_bytes st = 0 \<Longrightarrow>
   list_all zero_percent (fst (threaded_loop mr st obs i ts c))
   \<and> total_bytes (fst (snd (threaded_loop mr st obs i ts c))) = 0"
proof (induction ts arbitrary: st i c)
  case Nil
  then show ?case by simp
next
  case (Cons t ts)
  obtain l r where t: "t = (l, r)" by (cases t)
  obtain e1 s1 c1 res where w: "upload_worker mr st i l r (obs i) c = (e1, s1, c1, res)"
    by (cases "upload_worker mr st i l r (obs i) c")
  from upload_worker_zero [OF Cons.prems, of mr i l r "obs i" c]
  have z1: "list_all zero_percent e1" and t1: "total_bytes s1 = 0" and b: "\<exists>b. res = Inr b"
    by (simp_all add: w)
  obtain b' where b': "res = Inr b'" using b by auto
  obtain e2 r2 where tl: "threaded_loop mr s1 obs (Suc i) ts c1 = (e2, r2)"
    by (cases "threaded_loop mr s1 obs (Suc i) ts c1")
  from Cons.IH [OF t1, of "Suc i" c1] have "list_all zero_percent e2" "total_bytes (fst r2) = 0"
    by (simp_all add: tl)
  then show ?case using z1 t1 by (simp add: t w b' tl)
qed

text \<open>
  Claim C10: the guarded expression, in the callbacks and in the terminal updates, never
  raises \<open>ZeroDivisionError\<close>, so both upload functions return normally; and when
  \<open>total_bytes\<close> is zero, every aggregate-progress event emitted by a progress callback,
  by a terminal-success update, and hence by the whole sequential or pooled dispatch of
  any task list, reports the percent 0.
\<close>

theorem C10_zero_total:
  "(\<exists>p. overall_percent_expr x t = Inr p)
   \<and> (\<exists>p. overall_percent_done u t = Inr p)
   \<and> (\<exists>b. snd (snd (upload_single_file mr st k l r ob)) = Inr b)
   \<and> (\<exists>b. snd (snd (upload_single_file_threaded mr st k l r ob)) = Inr b)
   \<and> (total_bytes st = 0 \<longrightarrow>
        list_all zero_percent (fst (progress_callback st l s cb))
      \<and> list_all zero_percent (fst (progress_callback_threaded st l z s cb))
      \<and> list_all zero_percent (fst (upload_single_file mr st k l r ob))
      \<and> list_all zero_percent (fst (upload_single_file_threaded mr st k l r ob))
      \<and> (\<forall>res. sequential_loop mr st obs i ts c = Some res \<longrightarrow>
            list_all zero_percent (fst res) \<and> snd (snd (snd res)) = None)
      \<and> list_all zero_percent (fst (threaded_loop mr st obs i ts c)))"
proof -
  have seq: "list_all zero_percent (fst res) \<and> snd (snd (snd res)) = None"
    if z: "total_bytes st = 0" and s: "sequential_loop mr st obs i ts c = Some res" for res
    using sequential_loop_zero [OF z, of mr obs i ts c "fst res" "fst (snd res)" "fst (snd (snd res))" "snd (snd (snd res))"] s
    by simp
  show ?thesis
    using seq upload_single_file_returns upload_single_file_threaded_returns
      zero_percent_callback zero_percent_callback_threaded upload_single_file_zero
      upload_single_file_threaded_zero threaded_loop_zero
    by (simp add: overall_percent_expr_eq overall_percent_done_eq)
qed

lemma zero_values:
  "py_float 0 = 0" "f_mul 0 x = 0" "f_div 0 x = 0" "f_add 0 0 = 0" "f_sub 1 0 = 1" "int_truediv 0 n = 0"
  by (simp_all add: double_arith)

theorem C10_zero_total_witness:
  "fst (upload_single_file 0 st_empty SessionConn ''e.txt'' ''e.txt'' ob_empty_file)
     = [Log Info (Uploading ''e.txt'' ''e.txt''), UploadFile SessionConn ''e.txt'' ''e.txt'',
        Progress ''e.txt'' 50, Overall 0 0 0, Speed 0, Overall 0 0 0,
        FileCompleted ''e.txt'' True ''File uploaded successfully'' 0,
        Log Info (Uploaded ''e.txt'' 0)]
   \<and> list_all zero_percent (fst (upload_single_file 0 st_empty SessionConn ''e.txt'' ''e.txt'' ob_empty_file))
   \<and> map_option (\<lambda>res. list_all zero_percent (fst res))
        (sequential_loop 0 st_empty (\<lambda>i. ob_empty_file) 0 [(''e.txt'', ''e.txt'')] (0, 0)) = Some True"
proof -
  have p: "pause_wait (t_pause ob_empty_file) 0 = Some 0"
    by (subst pause_wait.simps) (simp add: ob_empty_file_def)
  have z: "total_bytes st_empty = 0" by (simp add: st_empty_def)
  have e: "fst (upload_single_file 0 st_empty SessionConn ''e.txt'' ''e.txt'' ob_empty_file)
     = [Log Info (Uploading ''e.txt'' ''e.txt''), UploadFile SessionConn ''e.txt'' ''e.txt'',
        Progress ''e.txt'' 50, Overall 0 0 0, Speed 0, Overall 0 0 0,
        FileCompleted ''e.txt'' True ''File uploaded successfully'' 0,
        Log Info (Uploaded ''e.txt'' 0)]"
    by (simp add: upload_single_file_def ob_empty_file_def attempt_upload_def progress_callback_eq
        cb_empty_def st_empty_def overall_percent_done_eq completion_events_def py_int_def Let_def zero_values)
  have nc: "\<not> t_cancel ob_empty_file" by (simp add: ob_empty_file_def)
  obtain evs st' b where u: "upload_single_file 0 st_empty SessionConn ''e.txt'' ''e.txt'' ob_empty_file = (evs, st', Inr b)"
    using upload_single_file_returns [of 0 st_empty SessionConn "''e.txt''" "''e.txt''" ob_empty_file]
    by (cases "upload_single_file 0 st_empty SessionConn ''e.txt'' ''e.txt'' ob_empty_file") auto
  have t: "sequential_task 0 st_empty ''e.txt'' ''e.txt'' ob_empty_file (0, 0) = Some (evs, st', tally b (0, 0), None)"
    by (simp add: sequential_task_def p u)
  have s: "sequential_loop 0 st_empty (\<lambda>i. ob_empty_file) 0 [(''e.txt'', ''e.txt'')] (0, 0)
      = Some (evs, st', tally b (0, 0), None)"
    by (simp add: nc t)
  from C10_zero_total [where st = st_empty and mr = 0 and k = SessionConn and l = "''e.txt''" and r = "''e.txt''"
      and ob = ob_empty_file and obs = "\<lambda>i. ob_empty_file" and i = 0 and ts = "[(''e.txt'', ''e.txt'')]" and c = "(0, 0)"] z s e
  show ?thesis by simp
qed



section \<open>Traces of the dispatch loops\<close>

lemma benign_callback:
  "benign P \<Longrightarrow> list_all P (fst (progress_callback st l s c))"
  by (simp add: benign_def progress_callback_eq split: option.splits)

lemma benign_callback_threaded:
  "benign P \<Longrightarrow> list_all P (fst (progress_callback_threaded st l n s c))"
  by (simp add: benign_def progress_callback_threaded_eq)

lemma benign_run_callbacks:
  "\<forall>c. list_all P (fst (cb c)) \<Longrightarrow> list_all P (fst (run_callbacks cb cs))"
proof (induction cs)
  case Nil then show ?case by simp
next
  case (Cons c cs)
  have "list_all P (fst (cb c))" using Cons.prems by simp
  then show ?case
    using Cons
    by (cases "cb c"; cases "snd (cb c)"; cases "run_callbacks cb cs") auto
qed

lemma benign_attempt:
  "\<forall>c. list_all P (fst (cb c)) \<Longrightarrow> list_all P (fst (attempt_upload cb a))"
  using benign_run_callbacks [of P cb "at_callbacks a"]
  by (cases "run_callbacks cb (at_callbacks a)") (auto simp: attempt_upload_def split: option.splits)

lemma benign_retry_loop:
  assumes "\<forall>c. list_all P (fst (cb c))" and "benign P"
  shows "list_all P (fst (retry_loop k l r mr cb obs js r0))"
proof (induction js arbitrary: r0)
  case Nil then show ?case by simp
next
  case (Cons j js)
  obtain evs r' where a: "attempt_upload cb (obs j) = (evs, r')" by (cases "attempt_upload cb (obs j)")
  have e: "list_all P evs" using benign_attempt [OF assms(1), where a = "obs j"] a by simp
  obtain evs' r'' where b: "retry_loop k l r mr cb obs js r' = (evs', r'')"
    by (cases "retry_loop k l r mr cb obs js r'")
  have e': "list_all P evs'" using Cons.IH [of r'] b by simp
  show ?case using e e' assms(2) by (simp add: a b Let_def benign_def)
qed

lemma benign_completion: "benign P \<Longrightarrow> list_all P (completion_events l s m v)"
  by (simp add: completion_events_def benign_def)

lemma benign_upload_single_file:
  assumes "benign P"
  shows "list_all P (fst (upload_single_file mr st k l r ob))"
proof -
  let ?cb = "progress_callback st l (t_start ob)"
  obtain evs s m where rl: "retry_loop k l r mr ?cb (t_attempt ob) [0..<nat (mr + 1)] (False, []) = (evs, (s, m))"
    by (cases "retry_loop k l r mr ?cb (t_attempt ob) [0..<nat (mr + 1)] (False, [])") auto
  have "\<forall>c. list_all P (fst (?cb c))" using benign_callback [OF assms] by simp
  from benign_retry_loop [OF this assms, of k l r mr "t_attempt ob" "[0..<nat (mr + 1)]" "(False, [])"]
  have "list_all P evs" by (simp add: rl)
  moreover have "P (Log lv m)" "P (Overall u t p)" for lv m u t p using assms by (simp_all add: benign_def)
  ultimately show ?thesis
    using benign_completion [OF assms]
    by (simp add: upload_single_file_def rl Let_def overall_percent_expr_eq overall_percent_done_eq split: option.splits prod.splits)
qed

lemma benign_upload_single_file_threaded:
  assumes "benign P"
  shows "list_all P (fst (upload_single_file_threaded mr st k l r ob))"
proof (cases "t_size0 ob")
  case None
  then show ?thesis using assms by (simp add: upload_single_file_threaded_def benign_def)
next
  case (Some z)
  let ?cb = "progress_callback_threaded st l z (t_start ob)"
  obtain evs s m where rl: "retry_loop k l r mr ?cb (t_attempt ob) [0..<nat (mr + 1)] (False, []) = (evs, (s, m))"
    by (cases "retry_loop k l r mr ?cb (t_attempt ob) [0..<nat (mr + 1)] (False, [])") auto
  have "\<forall>c. list_all P (fst (?cb c))" using benign_callback_threaded [OF assms] by simp
  from benign_retry_loop [OF this assms, of k l r mr "t_attempt ob" "[0..<nat (mr + 1)]" "(False, [])"]
  have "list_all P evs" by (simp add: rl)
  moreover have "P (Log lv m)" "P (Overall u t p)" for lv m u t p using assms by (simp_all add: benign_def)
  ultimately show ?thesis
    using benign_completion [OF assms]
    by (simp add: upload_single_file_threaded_def Some rl Let_def overall_percent_expr_eq overall_percent_done_eq)
qed

lemma benign_sequential_task:
  assumes "benign P" and "sequential_task mr st l r ob c = Some (evs, st', c', x)"
  shows "list_all P evs \<and> x = None \<and> total_bytes st' = total_bytes st \<and> uploaded_bytes st \<le> uploaded_bytes st'"
proof -
  obtain es s2 res where u: "upload_single_file mr st SessionConn l r ob = (es, s2, res)"
    by (cases "upload_single_file mr st SessionConn l r ob")
  have z: "list_all P es" using benign_upload_single_file [OF assms(1), of mr st SessionConn l r ob] u by simp
  have t: "total_bytes s2 = total_bytes st" using upload_single_file_total [of mr st SessionConn l r ob] u by simp
  have m: "uploaded_bytes st \<le> uploaded_bytes s2"
    using u by (auto simp: upload_single_file_def Let_def overall_percent_expr_eq overall_percent_done_eq split: option.splits prod.splits if_splits)
  obtain b where b: "res = Inr b" using upload_single_file_returns [of mr st SessionConn l r ob] u by auto
  have rep: "list_all P (replicate n (Sleep tenth))" for n using assms(1) by (induction n) (simp_all add: benign_def)
  show ?thesis
    using assms(2) z t m rep by (auto simp: sequential_task_def u b split: option.splits)
qed

lemma benign_sequential_loop:
  "benign P \<Longrightarrow> sequential_loop mr st obs i ts c = Some (evs, st', c', x)
   \<Longrightarrow> list_all P evs \<and> x = None \<and> total_bytes st' = total_bytes st \<and> uploaded_bytes st \<le> uploaded_bytes st'"
proof (induction ts arbitrary: st i c evs)
  case Nil
  then show ?case by simp
next
  case (Cons t ts)
  obtain l r where t: "t = (l, r)" by (cases t)
  show ?case
  proof (cases "t_cancel (obs i)")
    case True
    then show ?thesis using Cons.prems by (simp add: t)
  next
    case False
    from Cons.prems(2) False obtain e1 s1 c1 x1 where
      st: "sequential_task mr st l r (obs i) c = Some (e1, s1, c1, x1)"
      by (auto simp: t split: option.splits)
    from benign_sequential_task [OF Cons.prems(1) st]
    have z1: "list_all P e1" and x1: "x1 = None" and t1: "total_bytes s1 = total_bytes st"
      and m1: "uploaded_bytes st \<le> uploaded_bytes s1" by simp_all
    from Cons.prems(2) False obtain e2 where
      sl: "sequential_loop mr s1 obs (Suc i) ts c1 = Some (e2, st', c', x)" and ev: "evs = e1 @ e2"
      by (auto simp: t st x1 split: option.splits)
    from Cons.IH [OF Cons.prems(1) sl] show ?thesis using z1 ev t1 m1 by simp
  qed
qed

lemma sequential_loop_returns:
  "\<forall>i. pause_wait (t_pause (obs i)) 0 \<noteq> None \<Longrightarrow> \<exists>res. sequential_loop mr st obs i ts c = Some res"
proof (induction ts arbitrary: st i c)
  case Nil
  then show ?case by simp
next
  case (Cons t ts)
  obtain l r where t: "t = (l, r)" by (cases t)
  obtain n where n: "pause_wait (t_pause (obs i)) 0 = Some n" using Cons.prems by auto
  obtain es s2 res where u: "upload_single_file mr st SessionConn l r (obs i) = (es, s2, res)"
    by (cases "upload_single_file mr st SessionConn l r (obs i)")
  obtain b where b: "res = Inr b" using upload_single_file_returns [of mr st SessionConn l r "obs i"] u by auto
  have st: "sequential_task mr st l r (obs i) c = Some (replicate n (Sleep tenth) @ es, s2, tally b c, None)"
    by (simp add: sequential_task_def n u b)
  obtain res' where "sequential_loop mr s2 obs (Suc i) ts (tally b c) = Some res'"
    using Cons.IH [OF Cons.prems] by blast
  then show ?case by (cases res') (simp add: t st)
qed

lemma filter_none: "list_all (\<lambda>e. \<not> Q e) xs \<Longrightarrow> filter Q xs = []"
  by (induction xs) auto

lemma benign_upload_worker:
  assumes "benign P" and "P (Connect (WorkerConn i))" and "P (Disconnect (WorkerConn i))"
  shows "list_all P (fst (upload_worker mr st i l r ob c))
       \<and> total_bytes (fst (snd (upload_worker mr st i l r ob c))) = total_bytes st
       \<and> uploaded_bytes st \<le> uploaded_bytes (fst (snd (upload_worker mr st i l r ob c)))
       \<and> (\<exists>b. snd (snd (snd (upload_worker mr st i l r ob c))) = Inr b)"
proof -
  obtain es s2 res where u: "upload_single_file_threaded mr st (WorkerConn i) l r ob = (es, s2, res)"
    by (cases "upload_single_file_threaded mr st (WorkerConn i) l r ob")
  have z: "list_all P es"
    using benign_upload_single_file_threaded [OF assms(1), of mr st "WorkerConn i" l r ob] u by simp
  have t: "total_bytes s2 = total_bytes st"
    using upload_single_file_threaded_total [of mr st "WorkerConn i" l r ob] u by simp
  have m: "uploaded_bytes st \<le> uploaded_bytes s2"
    using u by (auto simp: upload_single_file_threaded_def Let_def overall_percent_expr_eq overall_percent_done_eq split: option.splits prod.splits if_splits)
  obtain b where b: "res = Inr b"
    using upload_single_file_threaded_returns [of mr st "WorkerConn i" l r ob] u by auto
  have lg: "P (Log lv x)" for lv x using assms(1) by (simp add: benign_def)
  show ?thesis
    using z t m assms(2,3) lg by (cases "t_connect ob") (auto simp: upload_worker_def u b split: bool.splits)
qed

lemma benign_threaded_loop:
  assumes "benign P" and "\<forall>i. P (Connect (WorkerConn i)) \<and> P (Disconnect (WorkerConn i))"
  shows "list_all P (fst (threaded_loop mr st obs i ts c))
   \<and> total_bytes (fst (snd (threaded_loop mr st obs i ts c))) = total_bytes st
   \<and> uploaded_bytes st \<le> uploaded_bytes (fst (snd (threaded_loop mr st obs i ts c)))"
proof (induction ts arbitrary: st i c)
  case Nil
  then show ?case by simp
next
  case (Cons t ts)
  obtain l r where t: "t = (l, r)" by (cases t)
  obtain e1 s1 c1 res where w: "upload_worker mr st i l r (obs i) c = (e1, s1, c1, res)"
    by (cases "upload_worker mr st i l r (obs i) c")
  from benign_upload_worker [OF assms(1), of i mr st l r "obs i" c] assms(2)
  have z1: "list_all P e1" and t1: "total_bytes s1 = total_bytes st"
    and m1: "uploaded_bytes st \<le> uploaded_bytes s1" and b: "\<exists>b. res = Inr b"
    by (simp_all add: w)
  obtain b' where b': "res = Inr b'" using b by auto
  obtain e2 s2 c2 where tl: "threaded_loop mr s1 obs (Suc i) ts c1 = (e2, s2, c2)"
    by (cases "threaded_loop mr s1 obs (Suc i) ts c1")
  from Cons.IH [of s1 "Suc i" c1] have "list_all P e2" "total_bytes s2 = total_bytes s1"
    "uploaded_bytes s1 \<le> uploaded_bytes s2"
    by (simp_all add: tl)
  then show ?case using z1 t1 m1 by (simp add: t w b' tl)
qed

lemma compile_patterns_logs:
  "\<forall>lv m. P (Log lv m) \<Longrightarrow> list_all P (fst (compile_patterns w ps))"
  by (induction ps) (auto split: prod.splits)

lemma collect_roots_logs:
  "\<forall>lv m. P (Log lv m) \<Longrightarrow> list_all P (fst (collect_roots self w pats rs))"
proof (induction rs)
  case Nil then show ?case by simp
next
  case (Cons r rs)
  then show ?case
    by (cases "collect_root self w pats r"; cases "collect_roots self w pats rs")
       (auto split: option.splits py_error.splits)
qed

lemma collect_files_logs:
  assumes "\<forall>lv m. P (Log lv m)"
  shows "list_all P (fst (collect_files self w))"
proof -
  obtain a b where c: "compile_patterns w (ignore_patterns self) = (a, b)"
    by (cases "compile_patterns w (ignore_patterns self)")
  obtain x r where d: "collect_roots self w b (files self) = (x, r)"
    by (cases "collect_roots self w b (files self)")
  have "list_all P a" using compile_patterns_logs [OF assms, of w "ignore_patterns self"] c by simp
  moreover have "list_all P x" using collect_roots_logs [OF assms, of self w b "files self"] d by simp
  ultimately show ?thesis by (simp add: collect_files_def c d)
qed

lemma sum_sizes_snapshot:
  "\<forall>(l, r) \<in> set ts. r_exists ob l \<longrightarrow> r_getsize ob l \<noteq> None \<Longrightarrow> sum_sizes ob ts = Some (spec_total_bytes ob ts)"
  by (induction ts) (auto simp: spec_total_bytes_def)

lemma emit_completion_signal_eq:
  "emit_completion_signal cancel s f n =
     AllCompleted (\<not> cancel \<and> f = 0)
       (if cancel then ''Upload canceled''
        else if f = 0 then ''All '' @ str_nat n @ '' files uploaded successfully''
        else ''Upload completed with '' @ str_nat f @ '' errors'') s f"
  by (simp add: emit_completion_signal_def)

lemma benign_not_completion: "benign (\<lambda>e. \<not> is_completion e)"
  by (simp add: benign_def)

lemma run_returns:
  assumes "\<forall>i. pause_wait (t_pause (r_task ob i)) 0 \<noteq> None"
  shows "run self w ob \<noteq> None"
proof -
  have seq: "(upload_files_sequential mr st (r_task ob) ce ts = None) = False" for mr st ce ts
  proof -
    obtain res where "sequential_loop mr st (r_task ob) 0 ts (0, 0) = Some res"
      using sequential_loop_returns [OF assms] by blast
    then show ?thesis by (cases res) (auto simp: upload_files_sequential_def split: option.splits)
  qed
  show ?thesis
    by (auto simp: run_def Let_def seq split: prod.splits bool.splits option.splits)
qed

lemma filter_completion_single:
  "list_all (\<lambda>e. \<not> is_completion e) a \<Longrightarrow> list_all (\<lambda>e. \<not> is_completion e) b \<Longrightarrow> is_completion x
   \<Longrightarrow> filter is_completion (a @ x # b) = [x]"
  by (simp add: filter_none)

text \<open>
  The completion event of a run whose adapter was created. A failed initial connect ends
  the run with the single completion event \<open>(False, connect message, 0, 0)\<close> and no
  upload attempt; otherwise (the collector returning normally) a run that returns raises
  nothing and emits exactly one completion event: success flag false and message
  "Upload canceled" if the cancel flag is set when it is read, success flag true if the
  failure count of the dispatch loop is 0, and success flag false otherwise, with the two
  counts the dispatch loop ends with; and the run returns whenever every pause wait
  ends.
\<close>

lemma run_completion_event:
  assumes cr: "r_create ob"
  shows
  "(\<not> fst (r_connect ob) \<longrightarrow>
      (\<exists>evs st. run self w ob = Some (evs, st, None)
          \<and> filter is_completion evs = [AllCompleted False (snd (r_connect ob)) 0 0]
          \<and> filter is_attempt_event evs = []))
   \<and> (fst (r_connect ob) \<and> collect_files self w = (cevs, all_files, None) \<longrightarrow>
       (\<forall>evs st x. run self w ob = Some (evs, st, x) \<longrightarrow>
          x = None \<and>
          (\<exists>s f. filter is_completion evs =
               [AllCompleted (\<not> r_cancel_at_end ob \<and> f = 0)
                  (if r_cancel_at_end ob then ''Upload canceled''
                   else if f = 0 then ''All '' @ str_nat (length all_files) @ '' files uploaded successfully''
                   else ''Upload completed with '' @ str_nat f @ '' errors'') s f]
             \<and> (let st1 = \<lparr>total_bytes = snd (compute_total ob all_files), uploaded_bytes = 0\<rparr>
                in if max_threads self > 1
                   then snd (snd (threaded_loop (max_retries self) st1 (r_task ob) 0 all_files (0, 0))) = (s, f)
                   else (\<exists>e st'. sequential_loop (max_retries self) st1 (r_task ob) 0 all_files (0, 0)
                           = Some (e, st', (s, f), None))))))
   \<and> ((\<forall>i. pause_wait (t_pause (r_task ob i)) 0 \<noteq> None) \<longrightarrow> run self w ob \<noteq> None)"
proof -
  have A: "\<not> fst (r_connect ob) \<longrightarrow>
      (\<exists>evs st. run self w ob = Some (evs, st, None)
          \<and> filter is_completion evs = [AllCompleted False (snd (r_connect ob)) 0 0]
          \<and> filter is_attempt_event evs = [])"
  proof
    assume nc: "\<not> fst (r_connect ob)"
    then obtain m where m: "r_connect ob = (False, m)" by (cases "r_connect ob") auto
    show "\<exists>evs st. run self w ob = Some (evs, st, None)
          \<and> filter is_completion evs = [AllCompleted False (snd (r_connect ob)) 0 0]
          \<and> filter is_attempt_event evs = []"
      using cr by (simp add: run_def m Let_def)
  qed
  have C: "(\<forall>i. pause_wait (t_pause (r_task ob i)) 0 \<noteq> None) \<longrightarrow> run self w ob \<noteq> None"
    using run_returns by blast
  have B: "x = None \<and>
          (\<exists>s f. filter is_completion evs =
               [AllCompleted (\<not> r_cancel_at_end ob \<and> f = 0)
                  (if r_cancel_at_end ob then ''Upload canceled''
                   else if f = 0 then ''All '' @ str_nat (length all_files) @ '' files uploaded successfully''
                   else ''Upload completed with '' @ str_nat f @ '' errors'') s f]
             \<and> (let st1 = \<lparr>total_bytes = snd (compute_total ob all_files), uploaded_bytes = 0\<rparr>
                in if max_threads self > 1
                   then snd (snd (threaded_loop (max_retries self) st1 (r_task ob) 0 all_files (0, 0))) = (s, f)
                   else (\<exists>e st'. sequential_loop (max_retries self) st1 (r_task ob) 0 all_files (0, 0)
                           = Some (e, st', (s, f), None))))"
    if c: "fst (r_connect ob) \<and> collect_files self w = (cevs, all_files, None)"
    and r: "run self w ob = Some (evs, st, x)" for evs st x
  proof -
  obtain m where m: "r_connect ob = (True, m)" using c by (cases "r_connect ob") auto
  have cf: "collect_files self w = (cevs, all_files, None)" using c by simp
  obtain tevs tb where ct: "compute_total ob all_files = (tevs, tb)" by (cases "compute_total ob all_files")
  let ?N = "\<lambda>e. \<not> is_completion e"
  let ?st1 = "\<lparr>total_bytes = tb, uploaded_bytes = 0\<rparr>"
  have lg: "\<forall>lv m. ?N (Log lv m)" by simp
  have cevs: "list_all ?N cevs" using collect_files_logs [OF lg, of self w] cf by simp
  have tevs: "list_all ?N tevs" using ct by (auto simp: compute_total_def split: option.splits)
  let ?pre = "[Log Info (Starting (max_threads self)), Connect SessionConn, Log Info ConnectedPreparing] @ cevs @ tevs
                @ [Log Info (FoundFiles (length all_files) tb)]"
  have pre: "list_all ?N ?pre" using cevs tevs by simp
  show ?thesis
  proof (cases "max_threads self > 1")
    case True
    obtain e st' s f where tl: "threaded_loop (max_retries self) ?st1 (r_task ob) 0 all_files (0, 0) = (e, st', (s, f))"
      by (cases "threaded_loop (max_retries self) ?st1 (r_task ob) 0 all_files (0, 0)") auto
    have e: "list_all ?N e"
      using benign_threaded_loop [OF benign_not_completion, of "max_retries self" ?st1 "r_task ob" 0 all_files "(0, 0)"]
      by (simp add: tl)
    have ev: "evs = ?pre @ e @ [emit_completion_signal (r_cancel_at_end ob) s f (length all_files), Disconnect SessionConn]"
      and x: "x = None"
      using r cr True by (simp_all add: run_def m cf ct Let_def upload_files_threaded_def tl)
    have "filter is_completion evs = [emit_completion_signal (r_cancel_at_end ob) s f (length all_files)]"
      unfolding ev using pre e by (simp add: filter_none emit_completion_signal_eq)
    then show ?thesis using x True by (auto simp: emit_completion_signal_eq ct tl)
  next
    case False
    from r cr False obtain ue ust ux where
      us: "upload_files_sequential (max_retries self) ?st1 (r_task ob) (r_cancel_at_end ob) all_files = Some (ue, ust, ux)"
      and ev0: "evs = ?pre @ ue @ [Disconnect SessionConn]" and x0: "x = ux"
      by (auto simp: run_def m cf ct Let_def split: option.splits)
    from us obtain e st' s f y where
      sl: "sequential_loop (max_retries self) ?st1 (r_task ob) 0 all_files (0, 0) = Some (e, st', (s, f), y)"
      by (auto simp: upload_files_sequential_def split: option.splits)
    from benign_sequential_loop [OF benign_not_completion sl]
    have e: "list_all ?N e" and y: "y = None" by simp_all
    have ue: "ue = e @ [emit_completion_signal (r_cancel_at_end ob) s f (length all_files)]" and ux: "ux = None"
      using us by (simp_all add: upload_files_sequential_def sl y)
    have "filter is_completion evs = [emit_completion_signal (r_cancel_at_end ob) s f (length all_files)]"
      unfolding ev0 ue using pre e by (simp add: filter_none emit_completion_signal_eq)
    then show ?thesis using x0 ux False sl y by (auto simp: emit_completion_signal_eq ct)
  qed
  qed
  show ?thesis
    using A B C by blast
qed

lemma collect_files_one:
  "collect_files self_pool world_one = ([], [(''a.txt'', ''a.txt'')], None)"
  by (simp add: collect_files_def self_pool_def world_one_def collect_root_def should_ignore_def basename_def)

lemma upload_worker_refused:
  "upload_worker 0 st 0 ''a.txt'' ''a.txt'' ob_refused c
     = ([Connect (WorkerConn 0), Log Error (ThreadConnectFailed ''Connection failed: too many connections'')],
        st, c, Inr False)"
  by (simp add: upload_worker_def ob_refused_def ob_all_fail_def)

lemma run_refused_trace:
  "run self_pool world_one run_refused
     = Some ([Log Info (Starting 2), Connect SessionConn, Log Info ConnectedPreparing,
              Log Info (FoundFiles 1 100), Connect (WorkerConn 0),
              Log Error (ThreadConnectFailed ''Connection failed: too many connections''),
              AllCompleted True ''All 1 files uploaded successfully'' 0 0, Disconnect SessionConn],
             \<lparr>total_bytes = 100, uploaded_bytes = 0\<rparr>, None)"
proof -
  have mt: "max_threads self_pool = 2" "max_retries self_pool = 0" by (simp_all add: self_pool_def)
  have ro: "r_create run_refused" "r_connect run_refused = (True, ''Connected successfully'')"
    "r_task run_refused = (\<lambda>i. ob_refused)" "\<not> r_cancel_at_end run_refused"
    by (simp_all add: run_refused_def)
  have ct: "compute_total run_refused [(''a.txt'', ''a.txt'')] = ([], 100)"
    by (simp add: compute_total_def run_refused_def)
  have cc: "\<not> t_collect_cancel ob_refused" by (simp add: ob_refused_def ob_all_fail_def)
  show ?thesis
    by (simp add: run_def mt ro collect_files_one ct upload_files_threaded_def upload_worker_refused cc
        emit_completion_signal_def str_nat.simps Let_def)
qed

lemma upload_files_threaded_vanished:
  "upload_files_threaded 0 st0 (\<lambda>i. ob_vanished) False [(''a.txt'', ''a.txt'')]
     = ([Connect (WorkerConn 0), Log Info (Uploading ''a.txt'' ''a.txt''), Log Error (SizeError ''a.txt''),
         Disconnect (WorkerConn 0), AllCompleted False ''Upload completed with 1 errors'' 0 1], st0)"
  by (simp add: upload_files_threaded_def upload_worker_def upload_single_file_threaded_def ob_vanished_def
      ob_all_fail_def tally_def emit_completion_signal_def str_nat.simps)

text \<open>
  Claim C2 at a failing input. One file, a pool of two threads, no cancellation, the
  worker thread's own connection refused: \<open>upload_worker\<close> returns before its tally and
  the collecting loop drops the value it returns, so the single task of the session is in
  neither count. The completion event carries the counts 0 and 0 and reports
  \<open>Completed\<close> ("All 1 files uploaded successfully") although no upload was attempted. A
  worker that fails after it has connected is counted: the same pool on a file whose
  size cannot be read ends with the counts 0 and 1.
\<close>

theorem C2_refused_worker_not_counted:
  "fst (snd (collect_files self_pool world_one)) = [(''a.txt'', ''a.txt'')]
   \<and> \<not> r_cancel_at_end run_refused
   \<and> (\<exists>evs st. run self_pool world_one run_refused = Some (evs, st, None)
         \<and> filter is_completion evs = [AllCompleted True ''All 1 files uploaded successfully'' 0 0]
         \<and> filter is_attempt_event evs = [])
   \<and> filter is_completion (fst (upload_files_threaded 0 st0 (\<lambda>i. ob_vanished) False [(''a.txt'', ''a.txt'')]))
        = [AllCompleted False ''Upload completed with 1 errors'' 0 1]"
proof -
  have c: "\<not> r_cancel_at_end run_refused" by (simp add: run_refused_def)
  show ?thesis
    using c by (simp add: collect_files_one run_refused_trace upload_files_threaded_vanished)
qed

text \<open>
  Claim C6 at a failing input. One file of 100 bytes, a pool of two threads, the worker
  thread's own connection refused: \<open>upload_worker\<close> returns before its tally, so the
  failure count stays 0 and the session reports \<open>Completed\<close> ("All 1 files uploaded
  successfully") with \<open>uploaded_bytes = 0\<close> and \<open>total_bytes = 100\<close>.
\<close>

theorem C6_completed_but_short:
  "run self_pool world_one run_refused
     = Some ([Log Info (Starting 2), Connect SessionConn, Log Info ConnectedPreparing,
              Log Info (FoundFiles 1 100), Connect (WorkerConn 0),
              Log Error (ThreadConnectFailed ''Connection failed: too many connections''),
              AllCompleted True ''All 1 files uploaded successfully'' 0 0, Disconnect SessionConn],
             \<lparr>total_bytes = 100, uploaded_bytes = 0\<rparr>, None)"
  by (rule run_refused_trace)

text \<open>
  Claim C7 at the same failing input. \<open>upload_worker\<close> calls \<open>connect\<close> before its
  \<open>try\<close>, so when that connect fails the worker's adapter is never disconnected, while
  \<open>run\<close>, whose connect is inside the \<open>try\<close>, disconnects the session's adapter once.
\<close>

theorem C7_worker_never_disconnected:
  "fst (upload_worker 0 \<lparr>total_bytes = 100, uploaded_bytes = 0\<rparr> 0 ''a.txt'' ''a.txt'' ob_refused (0, 0))
     = [Connect (WorkerConn 0), Log Error (ThreadConnectFailed ''Connection failed: too many connections'')]
   \<and> (\<exists>evs res. run self_pool world_one run_refused = Some (evs, res)
         \<and> filter (\<lambda>e. e = Connect (WorkerConn 0)) evs = [Connect (WorkerConn 0)]
         \<and> filter (\<lambda>e. e = Disconnect (WorkerConn 0)) evs = []
         \<and> filter (\<lambda>e. e = Disconnect SessionConn) evs = [Disconnect SessionConn])"
  by (simp add: upload_worker_refused run_refused_trace)

text \<open>
  Claim C9 at a failing input. A selected path that no longer exists is neither a file
  nor a directory for \<open>os.path.isfile\<close> and \<open>os.path.isdir\<close>, which do not raise: the
  root is skipped and the remaining root is collected, but nothing is logged.
\<close>

theorem C9_missing_root_not_logged:
  "w_entry world_one ''gone'' = Missing
   \<and> collect_files self_gone world_one = ([], [(''a.txt'', ''a.txt'')], None)"
  by (simp add: collect_files_def self_gone_def self_pool_def world_one_def collect_root_def should_ignore_def basename_def)

section \<open>The total size\<close>

lemma sum_sizes_unreadable:
  "\<not> scan_readable ob ts \<Longrightarrow> sum_sizes ob ts = None"
  by (induction ts) (auto simp: scan_readable_def split: option.splits)

text \<open>
  Claim C3, as the specification states it, fails: the sum is taken inside a \<open>try\<close> whose
  handler sets the total to 0. When \<open>v.txt\<close> vanishes between \<open>os.path.exists\<close> and
  \<open>os.path.getsize\<close>, the files \<open>a.txt\<close> (100 bytes) and \<open>b.txt\<close> (250 bytes) do not
  contribute either: the code logs an error and the total is 0, where the stated sum
  is 350.
\<close>

theorem C3_counterexample:
  "r_exists scan_vanishing ''v.txt'' \<and> r_getsize scan_vanishing ''v.txt'' = None
   \<and> compute_total scan_vanishing [(''a.txt'', ''a.txt''), (''v.txt'', ''v.txt''), (''b.txt'', ''b.txt'')]
        = ([Log Error TotalSizeError], 0)
   \<and> spec_total_bytes scan_vanishing [(''a.txt'', ''a.txt''), (''v.txt'', ''v.txt''), (''b.txt'', ''b.txt'')] = 350"
  by (simp add: scan_vanishing_def compute_total_def spec_total_bytes_def)

text \<open>
  Claim C3, amended: the total is computed by \<open>run\<close> once, before dispatch. When every
  collected task whose file exists at scan time has a size that can be read, it is the
  sum of the sizes of those tasks, a missing file being left out without affecting the
  others, and nothing is logged; when the size of a file that exists cannot be read, an
  error is logged and the total is 0, whatever the sizes of the other files. The total is
  never written again: neither dispatch function changes \<open>total_bytes\<close>, and the final
  \<open>total_bytes\<close> of a run is the value computed by the scan.
\<close>

theorem C3_total_bytes_amended:
  "(scan_readable ob all_files \<longrightarrow> compute_total ob all_files = ([], spec_total_bytes ob all_files))
   \<and> (\<not> scan_readable ob all_files \<longrightarrow> compute_total ob all_files = ([Log Error TotalSizeError], 0))
   \<and> (r_create ob \<and> fst (r_connect ob) \<and> collect_files self w = (cevs, all_files, None) \<longrightarrow>
        (\<forall>evs st x. run self w ob = Some (evs, st, x) \<longrightarrow> total_bytes st = snd (compute_total ob all_files)))
   \<and> total_bytes (snd (upload_files_threaded mr st1 obs ce ts)) = total_bytes st1
   \<and> (\<forall>evs st' x. upload_files_sequential mr st1 obs ce ts = Some (evs, st', x) \<longrightarrow> total_bytes st' = total_bytes st1)"
proof -
  have ct: "compute_total ob all_files = ([], spec_total_bytes ob all_files)" if "scan_readable ob all_files"
  proof -
    have "\<forall>(l, r) \<in> set all_files. r_exists ob l \<longrightarrow> r_getsize ob l \<noteq> None"
      using that by (simp add: scan_readable_def list_all_iff)
    from sum_sizes_snapshot [OF this] show ?thesis by (simp add: compute_total_def)
  qed
  have cf: "compute_total ob all_files = ([Log Error TotalSizeError], 0)" if "\<not> scan_readable ob all_files"
    using sum_sizes_unreadable [OF that] by (simp add: compute_total_def)
  have bt: "benign (\<lambda>e. True)" by (simp add: benign_def)
  have thr: "total_bytes (snd (upload_files_threaded mr st1 obs ce ts)) = total_bytes st1" for mr st1 obs ce ts
    using benign_threaded_loop [OF bt, of mr st1 obs 0 ts "(0, 0)"]
    by (cases "threaded_loop mr st1 obs 0 ts (0, 0)") (simp add: upload_files_threaded_def)
  have seq: "total_bytes st' = total_bytes st1"
    if u: "upload_files_sequential mr st1 obs ce ts = Some (evs, st', x)" for mr st1 obs ce ts evs st' x
  proof -
    from u obtain e c y where sl: "sequential_loop mr st1 obs 0 ts (0, 0) = Some (e, st', c, y)"
      by (auto simp: upload_files_sequential_def split: option.splits)
    from benign_sequential_loop [OF bt sl] show ?thesis by simp
  qed
  have rn: "total_bytes st = snd (compute_total ob all_files)"
    if h: "r_create ob \<and> fst (r_connect ob) \<and> collect_files self w = (cevs, all_files, None)"
      and r: "run self w ob = Some (evs, st, x)" for evs st x
  proof -
    obtain m where m: "r_connect ob = (True, m)" using h by (cases "r_connect ob") auto
    obtain tevs tb where tb: "compute_total ob all_files = (tevs, tb)" by (cases "compute_total ob all_files")
    let ?st1 = "\<lparr>total_bytes = tb, uploaded_bytes = 0\<rparr>"
    show ?thesis
    proof (cases "max_threads self > 1")
      case True
      then have "st = snd (upload_files_threaded (max_retries self) ?st1 (r_task ob) (r_cancel_at_end ob) all_files)"
        using r h by (auto simp: run_def m tb Let_def split: prod.splits)
      then show ?thesis using thr by (simp add: tb)
    next
      case False
      then obtain ue ux where
        "upload_files_sequential (max_retries self) ?st1 (r_task ob) (r_cancel_at_end ob) all_files = Some (ue, st, ux)"
        using r h by (auto simp: run_def m tb Let_def split: option.splits)
      from seq [OF this] show ?thesis by (simp add: tb)
    qed
  qed
  show ?thesis using ct cf thr seq rn by blast
qed

theorem C3_total_bytes_amended_witness:
  "compute_total scan_two [(''a.txt'', ''a.txt''), (''gone.txt'', ''gone.txt''), (''b.txt'', ''b.txt'')] = ([], 350)
   \<and> compute_total scan_vanishing [(''a.txt'', ''a.txt''), (''v.txt'', ''v.txt''), (''b.txt'', ''b.txt'')]
        = ([Log Error TotalSizeError], 0)
   \<and> total_bytes (fst (snd (the (run self_pool world_one run_refused)))) = 100"
proof -
  have r1: "scan_readable scan_two [(''a.txt'', ''a.txt''), (''gone.txt'', ''gone.txt''), (''b.txt'', ''b.txt'')]"
    by (simp add: scan_readable_def scan_two_def)
  from C3_total_bytes_amended [where ob = scan_two, THEN conjunct1, THEN mp, OF r1]
  have A: "compute_total scan_two [(''a.txt'', ''a.txt''), (''gone.txt'', ''gone.txt''), (''b.txt'', ''b.txt'')] = ([], 350)"
    by (simp add: spec_total_bytes_def scan_two_def)
  have r2: "\<not> scan_readable scan_vanishing [(''a.txt'', ''a.txt''), (''v.txt'', ''v.txt''), (''b.txt'', ''b.txt'')]"
    by (simp add: scan_readable_def scan_vanishing_def)
  from C3_total_bytes_amended [where ob = scan_vanishing, THEN conjunct2, THEN conjunct1, THEN mp, OF r2]
  have B: "compute_total scan_vanishing [(''a.txt'', ''a.txt''), (''v.txt'', ''v.txt''), (''b.txt'', ''b.txt'')]
        = ([Log Error TotalSizeError], 0)" .
  have r3: "scan_readable run_refused [(''a.txt'', ''a.txt'')]"
    by (simp add: scan_readable_def run_refused_def)
  have h: "r_create run_refused \<and> fst (r_connect run_refused)
      \<and> collect_files self_pool world_one = ([], [(''a.txt'', ''a.txt'')], None)"
    by (simp add: run_refused_def collect_files_one)
  obtain evs st x where r: "run self_pool world_one run_refused = Some (evs, st, x)"
    using run_refused_trace by simp
  note T = C3_total_bytes_amended [where ob = run_refused and all_files = "[(''a.txt'', ''a.txt'')]"
      and self = self_pool and w = world_one and cevs = "[]"]
  from T [THEN conjunct2, THEN conjunct2, THEN conjunct1, rule_format, OF h r]
       T [THEN conjunct1, THEN mp, OF r3]
  have "total_bytes st = 100" by (simp add: spec_total_bytes_def run_refused_def)
  then have C: "total_bytes (fst (snd (the (run self_pool world_one run_refused)))) = 100"
    by (simp add: r)
  show ?thesis using A B C by simp
qed



section \<open>Properties of the paths and of the collector\<close>

lemma split_sep_not_Nil [simp]: "split_sep s \<noteq> []"
  by (induction s) (auto split: list.splits)

lemma split_sep_noslash: "CHR ''/'' \<notin> set s \<Longrightarrow> split_sep s = [s]"
  by (induction s) auto

lemma split_sep_append: "split_sep (a @ CHR ''/'' # b) = butlast (split_sep a) @ (last (split_sep a)) # split_sep b"
  by (induction a) (auto split: list.splits)

lemma split_sep_slash: "CHR ''/'' \<notin> set a \<Longrightarrow> split_sep (a @ CHR ''/'' # b) = a # split_sep b"
  by (simp add: split_sep_append split_sep_noslash)

lemma join_sep_simps [simp]:
  "join_sep [] = []" "join_sep [x] = x" "join_sep (x # y # ys) = x @ CHR ''/'' # join_sep (y # ys)"
  by (simp_all add: join_sep_def)

lemma join_sep_Cons: "ys \<noteq> [] \<Longrightarrow> join_sep (x # ys) = x @ CHR ''/'' # join_sep ys"
  by (cases ys) simp_all

lemma join_sep_append: "xs \<noteq> [] \<Longrightarrow> ys \<noteq> [] \<Longrightarrow> join_sep (xs @ ys) = join_sep xs @ CHR ''/'' # join_sep ys"
proof (induction xs)
  case Nil then show ?case by simp
next
  case (Cons x xs)
  show ?case
  proof (cases xs)
    case Nil
    then show ?thesis using Cons.prems by (simp add: join_sep_Cons)
  next
    case (Cons a as)
    then show ?thesis using Cons.IH Cons.prems by (simp add: join_sep_Cons)
  qed
qed

lemma split_join:
  "xs \<noteq> [] \<Longrightarrow> \<forall>x\<in>set xs. CHR ''/'' \<notin> set x \<Longrightarrow> split_sep (join_sep xs) = xs"
proof (induction xs)
  case Nil then show ?case by simp
next
  case (Cons x xs)
  show ?case
  proof (cases xs)
    case Nil
    then show ?thesis using Cons.prems by (simp add: split_sep_noslash)
  next
    case (Cons a as)
    then show ?thesis using Cons.IH Cons.prems by (simp add: join_sep_Cons split_sep_slash)
  qed
qed

lemma norm_comps_plain:
  "\<forall>z\<in>set zs. z \<noteq> ''.'' \<and> z \<noteq> ''..'' \<Longrightarrow> norm_comps b acc zs = acc @ filter (\<lambda>x. x \<noteq> []) zs"
  by (induction zs arbitrary: acc) auto

lemma plain_names_noslash: "list_all plain_name xs \<Longrightarrow> \<forall>x\<in>set xs. CHR ''/'' \<notin> set x"
  by (auto simp: list_all_iff plain_name_def)

lemma plain_names_filter: "list_all plain_name xs \<Longrightarrow> filter (\<lambda>x. x \<noteq> []) xs = xs"
  by (induction xs) (auto simp: plain_name_def)

lemma plain_names_nodots: "list_all plain_name xs \<Longrightarrow> \<forall>z\<in>set xs. z \<noteq> ''.'' \<and> z \<noteq> ''..''"
  by (auto simp: list_all_iff plain_name_def)

lemma split_join_trailing:
  assumes "list_all plain_name xs" "xs \<noteq> []"
  shows "split_sep (join_sep xs @ ''/'') = xs @ [[]]"
proof -
  have "split_sep (join_sep xs @ CHR ''/'' # []) = butlast xs @ last xs # [[]]"
    using split_join [OF assms(2) plain_names_noslash [OF assms(1)]] by (simp add: split_sep_append)
  then show ?thesis using assms(2) by simp
qed

lemma join_sep_first:
  assumes "list_all plain_name xs" "xs \<noteq> []"
  shows "take (Suc 0) (join_sep xs @ s) \<noteq> ''/''"
proof -
  obtain x ys where Cons: "xs = x # ys" using assms(2) by (cases xs) auto
  have x: "x \<noteq> []" "CHR ''/'' \<notin> set x" using assms Cons by (simp_all add: plain_name_def)
  obtain c cs where xc: "x = c # cs" using x by (cases x) auto
  have c: "c \<noteq> CHR ''/''" using x xc by auto
  show ?thesis using c by (cases ys) (simp_all add: Cons xc)
qed

lemma norm_comps_plain_names:
  assumes "list_all plain_name xs"
  shows "norm_comps True [] xs = xs" "norm_comps True [] (xs @ [[]]) = xs"
  using norm_comps_plain [of xs True "[]"] norm_comps_plain [of "xs @ [[]]" True "[]"]
    plain_names_nodots [OF assms] plain_names_filter [OF assms]
  by simp_all

lemma normpath_abs:
  assumes "list_all plain_name xs"
  shows "normpath (CHR ''/'' # join_sep xs) = CHR ''/'' # join_sep xs"
proof (cases "xs = []")
  case True
  then show ?thesis by (simp add: normpath_def Let_def)
next
  case False
  show ?thesis
    using join_sep_first [OF assms False, of "[]"]
    by (simp add: normpath_def Let_def numeral_2_eq_2 split_join [OF False plain_names_noslash [OF assms]]
        norm_comps_plain_names [OF assms])
qed

lemma normpath_abs_trailing:
  assumes "list_all plain_name xs" "xs \<noteq> []"
  shows "normpath (CHR ''/'' # join_sep xs @ ''/'') = CHR ''/'' # join_sep xs"
  using join_sep_first [OF assms, of "''/''"]
  by (simp add: normpath_def Let_def numeral_2_eq_2 split_join_trailing [OF assms]
      norm_comps_plain_names [OF assms(1)])

lemma comps_abs:
  "list_all plain_name xs \<Longrightarrow> filter (\<lambda>x. x \<noteq> []) (split_sep (CHR ''/'' # join_sep xs)) = xs"
  using split_join [of xs] by (cases "xs = []") (simp_all add: plain_names_filter plain_names_noslash)

lemma concat_slash: "p \<noteq> [] \<Longrightarrow> concat (map ((#) CHR ''/'') p) = CHR ''/'' # join_sep p"
proof (induction p)
  case Nil then show ?case by simp
next
  case (Cons a p)
  then show ?case by (cases p) (simp_all add: join_sep_Cons)
qed

lemma under_root: "cs \<noteq> [] \<Longrightarrow> under (root_path ab cs) p = root_path ab (cs @ p)"
  by (cases "p = []") (simp_all add: under_def root_path_def concat_slash join_sep_append)

lemma join_sep_last:
  assumes "list_all plain_name xs" "xs \<noteq> []"
  shows "join_sep xs \<noteq> [] \<and> last (join_sep xs) \<noteq> CHR ''/''"
  using assms
proof (induction xs)
  case Nil then show ?case by simp
next
  case (Cons x xs)
  have x: "x \<noteq> []" "CHR ''/'' \<notin> set x" using Cons.prems by (simp_all add: plain_name_def)
  then have lx: "last x \<noteq> CHR ''/''" using last_in_set by metis
  show ?case
  proof (cases xs)
    case Nil
    then show ?thesis using x lx by simp
  next
    case (Cons a as)
    then show ?thesis using Cons.IH Cons.prems by (simp add: join_sep_Cons)
  qed
qed

lemma abspath_root:
  assumes cs: "list_all plain_name cs" and ws: "list_all plain_name ws"
  shows "abspath (Some (CHR ''/'' # join_sep ws)) (root_path ab cs)
       = Inr (CHR ''/'' # join_sep ((if ab then [] else ws) @ cs))"
proof (cases ab)
  case True
  then show ?thesis by (simp add: abspath_def isabs_def root_path_def normpath_abs [OF cs])
next
  case False
  have wc: "list_all plain_name (ws @ cs)" using cs ws by simp
  show ?thesis
  proof (cases "cs = []")
    case True
    show ?thesis
    proof (cases "ws = []")
      case True
      then show ?thesis using False \<open>cs = []\<close>
        by (simp add: abspath_def isabs_def root_path_def join_def normpath_def Let_def)
    next
      case wn: False
      have "last (join_sep ws) \<noteq> CHR ''/''" "join_sep ws \<noteq> []" using join_sep_last [OF ws wn] by simp_all
      then show ?thesis using False \<open>cs = []\<close> normpath_abs_trailing [OF ws wn]
        by (simp add: abspath_def isabs_def root_path_def join_def)
    qed
  next
    case cn: False
    have na: "take (Suc 0) (join_sep cs) \<noteq> ''/''" using join_sep_first [OF cs cn, of "[]"] by simp
    show ?thesis
    proof (cases "ws = []")
      case True
      then show ?thesis using False na normpath_abs [OF cs]
        by (simp add: abspath_def isabs_def root_path_def join_def)
    next
      case wn: False
      have l: "last (join_sep ws) \<noteq> CHR ''/''" "join_sep ws \<noteq> []" using join_sep_last [OF ws wn] by simp_all
      show ?thesis using False na l normpath_abs [OF wc]
        by (simp add: abspath_def isabs_def root_path_def join_def join_sep_append [OF wn cn])
    qed
  qed
qed

lemma commonprefix_append [simp]: "commonprefix a (a @ b) = a"
  by (induction a) simp_all

lemma relpath_root:
  assumes as: "list_all plain_name as" and bs: "list_all plain_name bs" and ws: "list_all plain_name ws"
    and bn: "bs \<noteq> []"
  shows "relpath (Some (CHR ''/'' # join_sep ws)) (root_path ab (as @ bs)) (root_path ab as) = Inr (join_sep bs)"
proof -
  let ?base = "if ab then [] else ws"
  have ab: "list_all plain_name (as @ bs)" using as bs by simp
  have ne: "root_path ab (as @ bs) \<noteq> []"
    using join_sep_last [OF ab] bn by (simp add: root_path_def)
  have p1: "list_all plain_name (?base @ as)" and p2: "list_all plain_name (?base @ as @ bs)"
    using as bs ws by simp_all
  show ?thesis
    using bn
    by (simp add: relpath_def ne abspath_root [OF as ws] abspath_root [OF ab ws]
        comps_abs [OF p1] comps_abs [OF p2] Let_def del: split_sep.simps)
       (simp add: append_assoc [symmetric] del: append_assoc)
qed

lemma basename_root:
  assumes "list_all plain_name cs" "cs \<noteq> []"
  shows "basename (root_path ab cs) = last cs"
proof -
  have sj: "split_sep (join_sep cs) = cs"
    using split_join [OF assms(2) plain_names_noslash [OF assms(1)]] .
  show ?thesis
  proof (cases ab)
    case True
    then show ?thesis using assms(2) by (simp add: basename_def root_path_def sj)
  next
    case False
    then show ?thesis by (simp add: basename_def root_path_def sj)
  qed
qed

lemma rstrip_sep_snoc: "y \<noteq> CHR ''/'' \<Longrightarrow> rstrip_sep (xs @ [y] @ ''/'') = xs @ [y]"
  by (simp add: rstrip_sep_def)

lemma take_prefix: "take (length (a @ b) - length b) (a @ b) = a"
  by simp

lemma dirname_root:
  assumes cs: "list_all plain_name cs" and cn: "cs \<noteq> []"
  shows "dirname (root_path ab cs) = root_path ab (butlast cs)"
proof (cases "butlast cs = []")
  case True
  then obtain c where c: "cs = [c]" using cn by (cases cs) (auto split: if_splits)
  have bn: "basename (root_path ab [c]) = c" using basename_root [OF cs cn, of ab] c by simp
  have tk: "take (length (root_path ab [c]) - length c) (root_path ab [c]) = (if ab then ''/'' else [])"
    using take_prefix [of "if ab then ''/'' else []" c] by (simp add: root_path_def)
  show ?thesis
    unfolding c dirname_def bn Let_def tk by (simp add: root_path_def)
next
  case False
  have bl: "list_all plain_name (butlast cs)" using cs by (auto simp: list_all_iff dest: in_set_butlastD)
  have dec: "join_sep cs = join_sep (butlast cs) @ CHR ''/'' # last cs"
    using join_sep_append [OF False, of "[last cs]"] cn by simp
  have jl: "join_sep (butlast cs) \<noteq> []" "last (join_sep (butlast cs)) \<noteq> CHR ''/''"
    using join_sep_last [OF bl False] by simp_all
  obtain ys y where y: "join_sep (butlast cs) = ys @ [y]" using jl(1) by (metis rev_exhaust)
  have yn: "y \<noteq> CHR ''/''" using jl(2) y by simp
  let ?pre = "if ab then ''/'' else []"
  have rp: "root_path ab cs = (?pre @ ys @ [y] @ ''/'') @ last cs"
    by (simp add: root_path_def dec y)
  have head: "take (length (root_path ab cs) - length (last cs)) (root_path ab cs) = ?pre @ ys @ [y] @ ''/''"
    unfolding rp by (rule take_prefix)
  have nas: "\<not> list_all (\<lambda>c. c = CHR ''/'') (?pre @ ys @ [y] @ ''/'')"
    using yn by simp
  have ne: "?pre @ ys @ [y] @ ''/'' \<noteq> []" by simp
  have rs: "rstrip_sep (?pre @ ys @ [y] @ ''/'') = ?pre @ ys @ [y]"
    using rstrip_sep_snoc [OF yn, of "?pre @ ys"] by simp
  have "dirname (root_path ab cs) = ?pre @ ys @ [y]"
    unfolding dirname_def basename_root [OF cs cn] Let_def head using nas ne rs by simp
  then show ?thesis by (simp add: root_path_def y)
qed

lemma join_plain:
  assumes "plain_name n" "d \<noteq> []" "last d \<noteq> CHR ''/''"
  shows "join d n = d @ CHR ''/'' # n"
proof -
  obtain c cs where n: "n = c # cs" "c \<noteq> CHR ''/''" using assms(1) by (cases n) (auto simp: plain_name_def)
  show ?thesis using assms(2,3) n by (simp add: join_def)
qed

lemma walk_paths:
  "plain_tree t \<Longrightarrow> d \<noteq> [] \<Longrightarrow> last d \<noteq> CHR ''/'' \<Longrightarrow> walk ign d t = map (under d) (tree_paths ign t)"
proof (induction ign d t rule: walk.induct)
  case (1 ign dirpath)
  then show ?case by simp
next
  case (2 ign dirpath fs ds)
  have fs: "list_all plain_name fs" and dsp: "list_all (\<lambda>(d, t). plain_name d \<and> plain_tree t) ds"
    using "2.prems"(1) by simp_all
  have f: "map (join dirpath) (filter (\<lambda>f. \<not> ign f) fs)
      = map (under dirpath) (map (\<lambda>f. [f]) (filter (\<lambda>f. \<not> ign f) fs))"
    using fs join_plain [OF _ "2.prems"(2,3)] by (auto simp: list_all_iff under_def)
  have d: "walk ign (join dirpath a) b = map (under dirpath) (map ((#) a) (tree_paths ign b))"
    if m: "(a, b) \<in> set (filter (\<lambda>(d, t). \<not> ign d) ds)" for a b
  proof -
    have pa: "plain_name a" and pb: "plain_tree b" using m dsp by (auto simp: list_all_iff)
    have j: "join dirpath a = dirpath @ CHR ''/'' # a" using join_plain [OF pa "2.prems"(2,3)] .
    have an: "a \<noteq> []" "last a \<noteq> CHR ''/''" using pa by (auto simp: plain_name_def) (metis last_in_set)
    have "walk ign (join dirpath a) b = map (under (join dirpath a)) (tree_paths ign b)"
      using "2.IH" [OF m refl pb] an by (simp add: j)
    then show ?thesis by (simp add: j under_def)
  qed
  have "concat (map (\<lambda>(d, t). walk ign (join dirpath d) t) (filter (\<lambda>(d, t). \<not> ign d) ds))
      = concat (map (\<lambda>(d, t). map (under dirpath) (map ((#) d) (tree_paths ign t))) (filter (\<lambda>(d, t). \<not> ign d) ds))"
    using d by (intro arg_cong [where f = concat] map_cong refl) auto
  then show ?case by (simp add: f map_concat comp_def case_prod_unfold)
qed

lemma tree_paths_plain:
  "plain_tree t \<Longrightarrow> p \<in> set (tree_paths ign t) \<Longrightarrow> p \<noteq> [] \<and> list_all plain_name p"
proof (induction ign t arbitrary: p rule: tree_paths.induct)
  case (1 ign)
  then show ?case by simp
next
  case (2 ign fs ds)
  have fs: "list_all plain_name fs" and dsp: "list_all (\<lambda>(d, t). plain_name d \<and> plain_tree t) ds"
    using "2.prems"(1) by simp_all
  from "2.prems"(2) consider (leaf) f where "f \<in> set fs" "p = [f]"
    | (sub) a b q where "(a, b) \<in> set (filter (\<lambda>(d, t). \<not> ign d) ds)" "q \<in> set (tree_paths ign b)" "p = a # q"
    by auto
  then show ?case
  proof cases
    case leaf
    then show ?thesis using fs by (auto simp: list_all_iff)
  next
    case sub
    have pa: "plain_name a" and pb: "plain_tree b" using sub(1) dsp by (auto simp: list_all_iff)
    from "2.IH" [OF sub(1) refl pb sub(2)] show ?thesis using pa sub(3) by simp
  qed
qed

lemma collect_walked_under:
  assumes cs: "list_all plain_name cs" and cn: "cs \<noteq> []" and ws: "list_all plain_name ws"
    and cwd: "w_cwd w = Some (CHR ''/'' # join_sep ws)"
    and ps: "\<forall>p\<in>set ps. p \<noteq> [] \<and> list_all plain_name p"
  shows "collect_walked self w (root_path ab cs) (map (under (root_path ab cs)) ps)
     = (map (\<lambda>p. (under (root_path ab cs) p,
                   replace_backslash (join (remote_dir self)
                     (join_sep ((if upload_directory_contents_only self then [] else [last cs]) @ p))))) ps,
        None)"
  using ps
proof (induction ps)
  case Nil
  then show ?case by simp
next
  case (Cons p ps)
  have pp: "list_all plain_name p" "p \<noteq> []" using Cons.prems by simp_all
  have bl: "list_all plain_name (butlast cs)" using cs by (auto simp: list_all_iff dest: in_set_butlastD)
  have lc: "plain_name (last cs)" using cs cn by (auto simp: list_all_iff)
  have c1: "relpath (w_cwd w) (under (root_path ab cs) p) (root_path ab cs) = Inr (join_sep p)"
    unfolding under_root [OF cn] cwd using relpath_root [OF cs pp(1) ws pp(2)] .
  have R: "relpath (w_cwd w) (root_path ab (butlast cs @ (last cs # p))) (root_path ab (butlast cs))
      = Inr (join_sep (last cs # p))"
    unfolding cwd using relpath_root [OF bl _ ws, of "last cs # p" ab] lc pp(1) by simp
  have eq: "cs @ p = butlast cs @ (last cs # p)"
    using append_butlast_last_id [OF cn] by (metis append.assoc append_Cons append_Nil)
  have c2: "relpath (w_cwd w) (under (root_path ab cs) p) (dirname (root_path ab cs)) = Inr (join_sep (last cs # p))"
    unfolding under_root [OF cn] dirname_root [OF cs cn] eq by (rule R)
  have IH: "collect_walked self w (root_path ab cs) (map (under (root_path ab cs)) ps)
     = (map (\<lambda>p. (under (root_path ab cs) p,
                   replace_backslash (join (remote_dir self)
                     (join_sep ((if upload_directory_contents_only self then [] else [last cs]) @ p))))) ps,
        None)"
    using Cons by simp
  show ?case
    by (cases "upload_directory_contents_only self") (simp_all add: c1 c2 IH)
qed

text \<open>
  Where the collector computes the remote paths the specification describes: for a
  directory root written without a trailing separator, whose components are plain
  names, with the working directory available, every file the walk reaches gets the
  local path of the root followed by the names down to the file, and the remote path
  obtained by joining, under the remote base directory and with forward slashes, those
  names (contents-only mode) or the root's last component followed by those names
  (preserve mode).
\<close>

lemma collect_root_plain:
  assumes "w_entry w (root_path ab cs) = IsDir t" and "plain_tree t"
    and "cs \<noteq> []" and "list_all plain_name cs"
    and "w_cwd w = Some (CHR ''/'' # join_sep ws)" and "list_all plain_name ws"
    and "\<not> should_ignore self w (last cs) patterns"
  shows "collect_root self w patterns (root_path ab cs)
     = (map (\<lambda>p. (under (root_path ab cs) p,
                   replace_backslash (join (remote_dir self)
                     (join_sep ((if upload_directory_contents_only self then [] else [last cs]) @ p)))))
            (tree_paths (\<lambda>n. should_ignore self w n patterns) t),
        None)"
proof -
  let ?ign = "\<lambda>n. should_ignore self w n patterns"
  have r: "root_path ab cs \<noteq> []" "last (root_path ab cs) \<noteq> CHR ''/''"
    using join_sep_last [OF assms(4,3)] by (simp_all add: root_path_def)
  have w: "walk ?ign (root_path ab cs) t = map (under (root_path ab cs)) (tree_paths ?ign t)"
    using walk_paths [OF assms(2) r] .
  have ps: "\<forall>p\<in>set (tree_paths ?ign t). p \<noteq> [] \<and> list_all plain_name p"
    using tree_paths_plain [OF assms(2)] by blast
  show ?thesis
    using assms(7)
    by (simp add: collect_root_def assms(1) basename_root [OF assms(4,3)] w
        collect_walked_under [OF assms(4,3,6,5) ps])
qed

text \<open>
  Claim C8 at a failing input. The directory \<open>root\<close> holding \<open>sub/file.txt\<close> is selected
  as \<open>root/\<close>, in preserve mode with an empty remote base: the code takes the root's
  parent with \<open>os.path.dirname("root/")\<close>, which is \<open>"root"\<close>, the root itself, so the
  file gets the remote path \<open>sub/file.txt\<close>, where the path relative to the root's parent
  is \<open>root/sub/file.txt\<close>. Selected as \<open>root\<close>, the same directory gets the remote paths
  the claim states, \<open>root/sub/file.txt\<close> in preserve mode and \<open>sub/file.txt\<close> in
  contents-only mode; contents-only mode gives \<open>sub/file.txt\<close> for \<open>root/\<close> as well.
\<close>

theorem C8_trailing_separator_drops_root:
  "\<not> upload_directory_contents_only self_slash \<and> remote_dir self_slash = [] \<and> files self_slash = [''root/'']
   \<and> collect_files self_slash world_example = ([], [(''root/sub/file.txt'', ''sub/file.txt'')], None)
   \<and> spec_remote_path self_slash world_example ''root/'' ''root/sub/file.txt'' = Inr ''root/sub/file.txt''
   \<and> collect_files self_example world_example = ([], [(''root/sub/file.txt'', ''root/sub/file.txt'')], None)
   \<and> collect_files (self_example\<lparr>upload_directory_contents_only := True\<rparr>) world_example
       = ([], [(''root/sub/file.txt'', ''sub/file.txt'')], None)
   \<and> collect_files (self_slash\<lparr>upload_directory_contents_only := True\<rparr>) world_example
       = ([], [(''root/sub/file.txt'', ''sub/file.txt'')], None)"
  by code_simp



section \<open>Further properties of the retry loop and of the ignore filter\<close>

text \<open>
  The retry loop stops early when cancellation is observed: if attempt \<open>j0\<close> is the first
  one at which the cancel flag is set, and every earlier attempt failed, then exactly the
  attempts before \<open>j0\<close> are made, each followed by its two-second pause.
\<close>

lemma retry_loop_cancelled:
  assumes q: "quiet cb"
    and n: "int n = mr + 1" and j0: "j0 < n"
    and at: "at_cancel (obs j0)"
  shows "i \<le> j0 \<Longrightarrow> \<forall>j. i \<le> j \<and> j < j0 \<longrightarrow> \<not> at_cancel (obs j) \<and> \<not> fst (at_result (obs j))
    \<Longrightarrow> filter is_attempt_event (fst (retry_loop k l r mr cb obs [i..<n] r0))
        = concat (replicate (j0 - i) [UploadFile k l r, Sleep 2])"
proof (induction "j0 - i" arbitrary: i r0)
  case 0
  then have i: "i = j0" by simp
  have up: "[i..<n] = i # [Suc i..<n]" using j0 i by (simp add: upt_conv_Cons)
  show ?case unfolding up using at i by simp
next
  case (Suc d)
  then have lt: "i < j0" by simp
  have up: "[i..<n] = i # [Suc i..<n]" using lt j0 by (simp add: upt_conv_Cons)
  obtain evs r' where au: "attempt_upload cb (obs i) = (evs, r')" by (cases "attempt_upload cb (obs i)")
  have r': "r' = at_result (obs i)" using attempt_upload_quiet(1) [OF q, of "obs i"] au by simp
  have evs: "filter is_attempt_event evs = []" using attempt_upload_quiet(2) [OF q, of "obs i"] au by simp
  have nci: "\<not> at_cancel (obs i)" and fi: "\<not> fst r'" using Suc.prems(2) lt r' by simp_all
  have sl: "int i < mr" using n lt j0 by simp
  obtain evs' r'' where rl: "retry_loop k l r mr cb obs [Suc i..<n] r' = (evs', r'')"
    by (cases "retry_loop k l r mr cb obs [Suc i..<n] r'")
  have step: "retry_loop k l r mr cb obs (i # [Suc i..<n]) r0
      = (((if i > 0 then [Log Warning (Retry i mr l)] else []) @ UploadFile k l r # evs) @ [Sleep 2] @ evs', r'')"
    using nci fi sl by (simp add: au rl Let_def)
  have d: "d = j0 - Suc i" using Suc.hyps(2) by simp
  have IH: "filter is_attempt_event evs' = concat (replicate (j0 - Suc i) [UploadFile k l r, Sleep 2])"
    using Suc.hyps(1) [OF d, of r'] Suc.prems lt by (simp add: rl)
  have rep: "j0 - i = Suc (j0 - Suc i)" using lt by simp
  show ?case unfolding up step using evs IH by (simp add: rep)
qed

text \<open>
  No path the walker keeps goes through an ignored name, and a root that is a regular file is
  kept only when its base name is not ignored.
\<close>

lemma tree_paths_not_ignored:
  "p \<in> set (tree_paths ign t) \<Longrightarrow> \<forall>n\<in>set p. \<not> ign n"
proof (induction ign t arbitrary: p rule: tree_paths.induct)
  case (1 ign)
  then show ?case by simp
next
  case (2 ign fs ds)
  from "2.prems" consider (leaf) f where "f \<in> set fs" "\<not> ign f" "p = [f]"
    | (sub) a b q where "(a, b) \<in> set (filter (\<lambda>(d, t). \<not> ign d) ds)" "q \<in> set (tree_paths ign b)" "p = a # q"
    by auto
  then show ?case
  proof cases
    case leaf
    then show ?thesis by simp
  next
    case sub
    from "2.IH" [OF sub(1) refl sub(2)] show ?thesis using sub(1,3) by auto
  qed
qed

lemma collect_root_file_not_ignored:
  "w_entry w file_path = IsFile \<Longrightarrow> (l, r) \<in> set (fst (collect_root self w patterns file_path))
   \<Longrightarrow> l = file_path \<and> r = basename file_path \<and> \<not> should_ignore self w (basename file_path) patterns"
  by (auto simp: collect_root_def split: if_splits)

text \<open>
  What \<open>_should_ignore\<close> decides on the compiled patterns, in terms of the patterns as
  the user wrote them: blank patterns and patterns that do not compile never match.
\<close>

lemma should_ignore_iff:
  "should_ignore self w filename (snd (compile_patterns w ps)) \<longleftrightarrow>
     (\<not> include_hidden_files self \<and> take 1 filename = ''.'')
     \<or> (\<exists>p\<in>set ps. strip p \<noteq> [] \<and> re_valid w (strip p) \<and> re_search w (strip p) filename)"
proof -
  have "set (snd (compile_patterns w ps)) = {strip p | p. p \<in> set ps \<and> strip p \<noteq> [] \<and> re_valid w (strip p)}"
    by (induction ps) (auto split: prod.splits)
  then show ?thesis by (auto simp: should_ignore_def list_ex_iff)
qed

end
